theory Spec2Isabelle
  imports Main "HOL-Library.Char_ord" "HOL-Library.List_Lexorder" "HOL-Library.Multiset"
begin

section \<open>Test items and the runner (runner.go)\<close>

text \<open>
  A \<^verbatim>\<open>*TestItem\<close> is an address into a store of items. \<^verbatim>\<open>time.Time\<close> is a natural
  number whose value 0 is the zero time (\<^verbatim>\<open>IsZero\<close>). The \<^verbatim>\<open>cancel\<close> field holds
  \<^verbatim>\<open>None\<close> for nil and \<^verbatim>\<open>Some c\<close> for the cancel function of context \<open>c\<close>; every call of
  \<^verbatim>\<open>runTest\<close> creates one context, so a context is named by the number of the task.
  Go's \<^verbatim>\<open>int\<close> counters are unbounded integers here: they count goroutines and never
  come near 64 bits.
\<close>

datatype TestStatus = StatusIdle | StatusQueued | StatusRunning | StatusPassed | StatusFailed

type_synonym time = nat
type_synonym addr = nat

record TestInfo =
  Name :: string
  Package :: string
  File :: string
  Line :: int

record TestItem =
  Info :: TestInfo
  Status :: TestStatus
  Selected :: bool
  LogFile :: string
  QueuedAt :: time
  StartedAt :: time
  FinishedAt :: time
  cancel :: "nat option"

definition Duration :: "time \<Rightarrow> TestItem \<Rightarrow> int" where
  "Duration now t =
     (case Status t of
        StatusQueued \<Rightarrow> int now - int (QueuedAt t)
      | StatusRunning \<Rightarrow> int now - int (StartedAt t)
      | StatusPassed \<Rightarrow> int (FinishedAt t) - int (StartedAt t)
      | StatusFailed \<Rightarrow> int (FinishedAt t) - int (StartedAt t)
      | StatusIdle \<Rightarrow> 0)"

text \<open>
  The field \<^verbatim>\<open>tests\<close> of the runner points at the session's slice variable
  \<^verbatim>\<open>m.filteredList\<close>; the record holds what the pointer reads, \<^verbatim>\<open>None\<close> while it is nil.
\<close>

record TestRunner =
  logDir :: string
  maxParallel :: int
  running :: int
  tests :: "addr list option"

text \<open>
  A goroutine started by \<^verbatim>\<open>go r.runTest(item)\<close> is a task. Its control points are the
  gaps between the critical sections of \<^verbatim>\<open>runTest\<close>: before the first one
  (\<open>Spawned\<close>), while the log file is created and the command runs (\<open>Started\<close>), and
  after the terminal status is written but before \<^verbatim>\<open>testFinished\<close> (\<open>Finished\<close>).
\<close>

datatype pc = Spawned | Started | Finished

record task =
  tid :: nat
  titem :: addr
  tpc :: pc

record sys =
  store :: "addr \<Rightarrow> TestItem"
  rnr :: TestRunner
  tasks :: "task list"
  spawned :: nat
  cancelled :: "nat set"

definition NewTestRunner :: "string \<Rightarrow> int \<Rightarrow> TestRunner" where
  "NewTestRunner dir n = \<lparr>logDir = dir, maxParallel = n, running = 0, tests = None\<rparr>"

definition SetTestList :: "addr list \<Rightarrow> sys \<Rightarrow> sys" where
  "SetTestList xs s = s\<lparr>rnr := (rnr s)\<lparr>tests := Some xs\<rparr>\<rparr>"

definition GetMaxParallel :: "sys \<Rightarrow> int" where
  "GetMaxParallel s = maxParallel (rnr s)"

definition GetRunningCount :: "sys \<Rightarrow> int" where
  "GetRunningCount s = running (rnr s)"

definition queued :: "sys \<Rightarrow> addr \<Rightarrow> bool" where
  "queued s a = (Status (store s a) = StatusQueued)"

definition GetQueuedCount :: "sys \<Rightarrow> int" where
  "GetQueuedCount s =
     (case tests (rnr s) of
        None \<Rightarrow> 0
      | Some xs \<Rightarrow> int (length (filter (queued s) xs)))"

text \<open>\<^verbatim>\<open>go r.runTest(item)\<close>: a new task, not yet run.\<close>

definition go_runTest :: "addr \<Rightarrow> sys \<Rightarrow> sys" where
  "go_runTest a s =
     s\<lparr>tasks := tasks s @ [\<lparr>tid = spawned s, titem = a, tpc = Spawned\<rparr>],
       spawned := Suc (spawned s)\<rparr>"

definition incr_running :: "sys \<Rightarrow> sys" where
  "incr_running s = s\<lparr>rnr := (rnr s)\<lparr>running := running (rnr s) + 1\<rparr>\<rparr>"

text \<open>
  The loop of \<^verbatim>\<open>tryStartNext\<close>, run under the runner's lock: while there is capacity,
  scan the list for the first item whose status is Queued, count it as running and spawn
  its task. The loop itself writes no item: the status changes only when the spawned
  task runs its first critical section, so a pass that is not interleaved with its own
  tasks sees the same item again on the next iteration.
\<close>

function admit_loop :: "addr list \<Rightarrow> sys \<Rightarrow> sys" where
  "admit_loop xs s =
     (if running (rnr s) < maxParallel (rnr s) then
        (case find (queued s) xs of
           None \<Rightarrow> s
         | Some a \<Rightarrow> admit_loop xs (go_runTest a (incr_running s)))
      else s)"
  by pat_completeness auto
termination
  by (relation "measure (\<lambda>(xs, s). nat (maxParallel (rnr s) - running (rnr s)))")
     (auto simp: go_runTest_def incr_running_def)

declare admit_loop.simps [simp del]

definition tryStartNext :: "sys \<Rightarrow> sys" where
  "tryStartNext s = (case tests (rnr s) of None \<Rightarrow> s | Some xs \<Rightarrow> admit_loop xs s)"

definition SetMaxParallel :: "int \<Rightarrow> sys \<Rightarrow> sys" where
  "SetMaxParallel n s = tryStartNext (s\<lparr>rnr := (rnr s)\<lparr>maxParallel := n\<rparr>\<rparr>)"

text \<open>
  \<^verbatim>\<open>filepath.Join\<close> of a directory and a file name, for a clean directory path. The
  formatted timestamp of the log name is an input, like the clock.
\<close>

definition Join :: "string \<Rightarrow> string \<Rightarrow> string" where
  "Join d f = d @ ''/'' @ f"

definition QueueTest :: "addr \<Rightarrow> time \<Rightarrow> string \<Rightarrow> sys \<Rightarrow> sys" where
  "QueueTest a now stamp s =
     (let it = store s a in
      if Status it = StatusRunning \<or> Status it = StatusQueued then s
      else tryStartNext
             (s\<lparr>store := (store s)(a := it\<lparr>Status := StatusQueued, QueuedAt := now,
                   LogFile := Join (logDir (rnr s)) (Name (Info it) @ ''.'' @ stamp @ ''.log'')\<rparr>)\<rparr>))"

definition StopTest :: "addr \<Rightarrow> sys \<Rightarrow> sys" where
  "StopTest a s =
     (let it = store s a in
      case Status it of
        StatusQueued \<Rightarrow> s\<lparr>store := (store s)(a := it\<lparr>Status := StatusIdle\<rparr>)\<rparr>
      | StatusRunning \<Rightarrow>
          (case cancel it of
             None \<Rightarrow> s
           | Some c \<Rightarrow> s\<lparr>cancelled := insert c (cancelled s)\<rparr>)
      | _ \<Rightarrow> s)"

text \<open>The critical sections of \<^verbatim>\<open>runTest\<close>, for the task with context \<open>c\<close> on item \<open>a\<close>.\<close>

definition runTest_begin :: "nat \<Rightarrow> addr \<Rightarrow> time \<Rightarrow> sys \<Rightarrow> sys" where
  "runTest_begin c a now s =
     s\<lparr>store := (store s)(a := (store s a)\<lparr>Status := StatusRunning, StartedAt := now,
          cancel := Some c\<rparr>)\<rparr>"

definition runTest_createFailed :: "addr \<Rightarrow> time \<Rightarrow> sys \<Rightarrow> sys" where
  "runTest_createFailed a now s =
     s\<lparr>store := (store s)(a := (store s a)\<lparr>Status := StatusFailed, FinishedAt := now\<rparr>)\<rparr>"

definition runTest_done :: "nat \<Rightarrow> addr \<Rightarrow> bool \<Rightarrow> time \<Rightarrow> sys \<Rightarrow> sys" where
  "runTest_done c a err now s =
     s\<lparr>store := (store s)(a := (store s a)\<lparr>FinishedAt := now,
          Status := (if c \<in> cancelled s then StatusFailed
                     else if err then StatusFailed else StatusPassed),
          cancel := None\<rparr>)\<rparr>"

definition testFinished :: "sys \<Rightarrow> sys" where
  "testFinished s = tryStartNext (s\<lparr>rnr := (rnr s)\<lparr>running := running (rnr s) - 1\<rparr>\<rparr>)"

subsection \<open>Interleavings\<close>

text \<open>
  The session calls the runner's methods one at a time; the tasks take their steps in
  between, in any order. An event names the step and carries what the environment
  decides: the clock, whether \<^verbatim>\<open>os.Create\<close> failed, whether the command returned an
  error. \<open>WriteTestList\<close> is \<^verbatim>\<open>SetTestList\<close> and every later write of the session to
  the slice the runner points at (filter, sort, move, rediscovery).

  A step is a call of a method of the runner or one critical section of a task. A call
  runs to its end before the next step, the admission pass it ends with included: the
  pass holds the runner's lock, and a goroutine it spawns need not be scheduled before
  the pass returns. The update callback does nothing (\<^verbatim>\<open>Init\<close> installs an empty
  function) and is left out.
\<close>

datatype event =
    CallQueueTest addr time string
  | CallStopTest addr
  | CallSetMaxParallel int
  | WriteTestList "addr list"
  | TaskBegins nat time
  | TaskCreateFails nat time
  | TaskCompletes nat bool time
  | TaskFinishes nat

definition set_pc :: "nat \<Rightarrow> pc \<Rightarrow> sys \<Rightarrow> sys" where
  "set_pc c p s = s\<lparr>tasks := map (\<lambda>t. if tid t = c then t\<lparr>tpc := p\<rparr> else t) (tasks s)\<rparr>"

definition retire :: "nat \<Rightarrow> sys \<Rightarrow> sys" where
  "retire c s = s\<lparr>tasks := filter (\<lambda>t. tid t \<noteq> c) (tasks s)\<rparr>"

definition task_at :: "nat \<Rightarrow> pc \<Rightarrow> sys \<Rightarrow> addr option" where
  "task_at c p s =
     (case find (\<lambda>t. tid t = c) (tasks s) of
        None \<Rightarrow> None
      | Some t \<Rightarrow> if tpc t = p then Some (titem t) else None)"

fun step :: "event \<Rightarrow> sys \<Rightarrow> sys" where
  "step (CallQueueTest a now stamp) s = QueueTest a now stamp s"
| "step (CallStopTest a) s = StopTest a s"
| "step (CallSetMaxParallel n) s = SetMaxParallel n s"
| "step (WriteTestList xs) s = SetTestList xs s"
| "step (TaskBegins c now) s =
     (case task_at c Spawned s of
        None \<Rightarrow> s
      | Some a \<Rightarrow> set_pc c Started (runTest_begin c a now s))"
| "step (TaskCreateFails c now) s =
     (case task_at c Started s of
        None \<Rightarrow> s
      | Some a \<Rightarrow> set_pc c Finished (runTest_createFailed a now s))"
| "step (TaskCompletes c err now) s =
     (case task_at c Started s of
        None \<Rightarrow> s
      | Some a \<Rightarrow> set_pc c Finished (runTest_done c a err now s))"
| "step (TaskFinishes c) s =
     (case task_at c Finished s of
        None \<Rightarrow> s
      | Some a \<Rightarrow> testFinished (retire c s))"

fun exec :: "event list \<Rightarrow> sys \<Rightarrow> sys" where
  "exec [] s = s"
| "exec (e # es) s = exec es (step e s)"

text \<open>
  The state \<^verbatim>\<open>NewModel\<close> builds: one idle item per discovered test, a runner with the
  default parallelism 3, its list set to all the items.
\<close>

definition new_item :: "TestInfo \<Rightarrow> TestItem" where
  "new_item t = \<lparr>Info = t, Status = StatusIdle, Selected = False, LogFile = [],
                 QueuedAt = 0, StartedAt = 0, FinishedAt = 0, cancel = None\<rparr>"

definition test_named :: "string \<Rightarrow> TestInfo" where
  "test_named n = \<lparr>Name = n, Package = [], File = [], Line = 0\<rparr>"

definition init_sys :: "string \<Rightarrow> TestInfo list \<Rightarrow> sys" where
  "init_sys dir ts =
     SetTestList [0..<length ts]
       \<lparr>store = (\<lambda>a. new_item (if a < length ts then ts ! a else test_named [])),
        rnr = NewTestRunner dir 3, tasks = [], spawned = 0, cancelled = {}\<rparr>"

definition in_flight :: "sys \<Rightarrow> addr \<Rightarrow> nat" where
  "in_flight s a = length (filter (\<lambda>t. titem t = a) (tasks s))"


text \<open>The tasks an admission pass spawns for one item: \<open>k\<close> of them, numbered from \<open>c\<close>.\<close>

fun spawn_tasks :: "addr \<Rightarrow> nat \<Rightarrow> nat \<Rightarrow> task list" where
  "spawn_tasks a c 0 = []"
| "spawn_tasks a c (Suc k) = \<lparr>tid = c, titem = a, tpc = Spawned\<rparr> # spawn_tasks a (Suc c) k"

definition task_view :: "sys \<Rightarrow> (addr \<times> pc) list" where
  "task_view s = map (\<lambda>t. (titem t, tpc t)) (tasks s)"

fun queues :: "addr \<Rightarrow> event \<Rightarrow> bool" where
  "queues a (CallQueueTest b now stamp) = (a = b)"
| "queues a e = False"

fun relists :: "addr \<Rightarrow> event \<Rightarrow> bool" where
  "relists a (WriteTestList xs) = (a \<in> set xs)"
| "relists a e = False"

text \<open>The stated invariant of the cancel handle, for one job.\<close>

definition handle_ok :: "sys \<Rightarrow> addr \<Rightarrow> bool" where
  "handle_ok s a = ((cancel (store s a) \<noteq> None) = (Status (store s a) = StatusRunning))"

fun create_fails :: "event \<Rightarrow> bool" where
  "create_fails (TaskCreateFails c now) = True"
| "create_fails e = False"

text \<open>
  The running count is the number of tasks in flight, and the tasks carry distinct
  numbers below the next one to be given out.
\<close>

definition counted :: "sys \<Rightarrow> bool" where
  "counted s = (running (rnr s) = int (length (tasks s)) \<and> distinct (map tid (tasks s))
                \<and> (\<forall>t \<in> set (tasks s). tid t < spawned s))"

section \<open>The session model\<close>

text \<open>
  \<^verbatim>\<open>strings.ToLower\<close> on ASCII text and \<^verbatim>\<open>strings.Contains\<close> on bytes. Go lowers
  letters outside ASCII too; the general statements below use \<open>ToLower\<close> as it stands
  and do not unfold it, only the examples evaluate it, on ASCII names.
\<close>

definition lower_char :: "char \<Rightarrow> char" where
  "lower_char c =
     (if CHR ''A'' \<le> c \<and> c \<le> CHR ''Z'' then char_of (of_char c + (32::nat)) else c)"

definition ToLower :: "string \<Rightarrow> string" where
  "ToLower s = map lower_char s"

fun HasPrefix :: "string \<Rightarrow> string \<Rightarrow> bool" where
  "HasPrefix s [] = True"
| "HasPrefix [] (p # ps) = False"
| "HasPrefix (c # s) (p # ps) = (c = p \<and> HasPrefix s ps)"

fun Contains :: "string \<Rightarrow> string \<Rightarrow> bool" where
  "Contains [] sub = (sub = [])"
| "Contains (c # s) sub = (HasPrefix (c # s) sub \<or> Contains s sub)"

text \<open>Indexing a slice with a Go \<^verbatim>\<open>int\<close>: out of range is a run-time panic, \<^verbatim>\<open>None\<close>.\<close>

definition index :: "'a list \<Rightarrow> int \<Rightarrow> 'a option" where
  "index xs i = (if 0 \<le> i \<and> i < int (length xs) then Some (xs ! nat i) else None)"

fun index_of :: "'a \<Rightarrow> 'a list \<Rightarrow> nat option" where
  "index_of x [] = None"
| "index_of x (y # ys) = (if y = x then Some 0 else map_option Suc (index_of x ys))"

datatype SortMode = SortByName | SortBySelection | SortByStatus

text \<open>
  The fields of \<^verbatim>\<open>Model\<close> that the list, the filter, the sort and the search work on;
  \<open>m_tests\<close> is the field \<^verbatim>\<open>tests\<close>. \<open>shares\<close> records that \<^verbatim>\<open>m.filteredList\<close> is the
  slice \<^verbatim>\<open>m.tests\<close> itself (the assignment \<^verbatim>\<open>m.filteredList = m.tests\<close>): a write to an
  element of one is then a write to the other.
\<close>

record Model =
  m_tests :: "addr list"
  cursor :: int
  recursive :: bool
  sortMode :: SortMode
  filterText :: string
  filteredList :: "addr list"
  shares :: bool
  outputLines :: "string list"
  outputScroll :: int
  autoScroll :: bool
  searchText :: string
  searchMatches :: "int list"
  currentMatchIdx :: int

definition NewModel :: "TestInfo list \<Rightarrow> Model" where
  "NewModel ts =
     \<lparr>m_tests = [0..<length ts], cursor = 0, recursive = True, sortMode = SortByName,
      filterText = [], filteredList = [0..<length ts], shares = True, outputLines = [],
      outputScroll = 0, autoScroll = True, searchText = [], searchMatches = [],
      currentMatchIdx = 0\<rparr>"

definition performSearch :: "Model \<Rightarrow> Model" where
  "performSearch m =
     (let m1 = m\<lparr>searchMatches := [], currentMatchIdx := - 1\<rparr> in
      if searchText m = [] then m1
      else m1\<lparr>searchMatches :=
                map int (filter (\<lambda>i. Contains (ToLower (outputLines m ! i)) (ToLower (searchText m)))
                           [0..<length (outputLines m)])\<rparr>)"

definition goToNextMatch :: "Model \<Rightarrow> Model option" where
  "goToNextMatch m =
     (if searchMatches m = [] then Some m
      else
        let i = currentMatchIdx m + 1;
            j = (if i \<ge> int (length (searchMatches m)) then 0 else i)
        in case index (searchMatches m) j of
             None \<Rightarrow> None
           | Some l \<Rightarrow> Some (m\<lparr>currentMatchIdx := j, outputScroll := l, autoScroll := False\<rparr>))"

definition goToPrevMatch :: "Model \<Rightarrow> Model option" where
  "goToPrevMatch m =
     (if searchMatches m = [] then Some m
      else
        let i = currentMatchIdx m - 1;
            j = (if i < 0 then int (length (searchMatches m)) - 1 else i)
        in case index (searchMatches m) j of
             None \<Rightarrow> None
           | Some l \<Rightarrow> Some (m\<lparr>currentMatchIdx := j, outputScroll := l, autoScroll := False\<rparr>))"

definition name_matches :: "(addr \<Rightarrow> TestItem) \<Rightarrow> string \<Rightarrow> addr \<Rightarrow> bool" where
  "name_matches st text a = Contains (ToLower (Name (Info (st a)))) (ToLower text)"

definition applyFilter :: "(addr \<Rightarrow> TestItem) \<Rightarrow> Model \<Rightarrow> Model" where
  "applyFilter st m =
     (let m1 = (if filterText m = [] then m\<lparr>filteredList := m_tests m, shares := True\<rparr>
                else m\<lparr>filteredList := filter (name_matches st (filterText m)) (m_tests m),
                       shares := False\<rparr>);
          m2 = (if cursor m1 \<ge> int (length (filteredList m1))
                then m1\<lparr>cursor := int (length (filteredList m1)) - 1\<rparr> else m1)
      in if cursor m2 < 0 then m2\<lparr>cursor := 0\<rparr> else m2)"

text \<open>A write to the elements of \<^verbatim>\<open>m.filteredList\<close> in place.\<close>

definition write_filtered :: "addr list \<Rightarrow> Model \<Rightarrow> Model" where
  "write_filtered ys m = m\<lparr>filteredList := ys, m_tests := (if shares m then ys else m_tests m)\<rparr>"

definition swap :: "nat \<Rightarrow> nat \<Rightarrow> 'a list \<Rightarrow> 'a list" where
  "swap i j xs = xs[i := xs ! j, j := xs ! i]"

definition moveItemUp :: "Model \<Rightarrow> Model option" where
  "moveItemUp m =
     (if cursor m \<le> 0 \<or> filteredList m = [] then Some m
      else if cursor m < int (length (filteredList m)) then
        Some ((write_filtered (swap (nat (cursor m)) (nat (cursor m - 1)) (filteredList m)) m)
                \<lparr>cursor := cursor m - 1\<rparr>)
      else None)"

definition moveItemDown :: "Model \<Rightarrow> Model option" where
  "moveItemDown m =
     (if cursor m \<ge> int (length (filteredList m)) - 1 \<or> filteredList m = [] then Some m
      else if 0 \<le> cursor m then
        Some ((write_filtered (swap (nat (cursor m)) (nat (cursor m + 1)) (filteredList m)) m)
                \<lparr>cursor := cursor m + 1\<rparr>)
      else None)"

definition status_rank :: "TestStatus \<Rightarrow> nat" where
  "status_rank st =
     (case st of StatusIdle \<Rightarrow> 0 | StatusQueued \<Rightarrow> 1 | StatusRunning \<Rightarrow> 2
      | StatusPassed \<Rightarrow> 3 | StatusFailed \<Rightarrow> 4)"

text \<open>The three comparison functions \<^verbatim>\<open>applySorting\<close> hands to \<^verbatim>\<open>sort.Slice\<close>.\<close>

definition less_by :: "SortMode \<Rightarrow> (addr \<Rightarrow> TestItem) \<Rightarrow> addr \<Rightarrow> addr \<Rightarrow> bool" where
  "less_by mode st a b =
     (case mode of
        SortByName \<Rightarrow> Name (Info (st a)) < Name (Info (st b))
      | SortBySelection \<Rightarrow>
          if Selected (st a) \<noteq> Selected (st b) then Selected (st a)
          else Name (Info (st a)) < Name (Info (st b))
      | SortByStatus \<Rightarrow>
          if Status (st a) \<noteq> Status (st b)
          then status_rank (Status (st a)) > status_rank (Status (st b))
          else Name (Info (st a)) < Name (Info (st b)))"

text \<open>
  \<^verbatim>\<open>sort.Slice\<close> belongs to Go's library, and its result on equal elements depends on
  the algorithm: it is the parameter \<open>srt\<close> of everything that sorts.
\<close>

type_synonym sorter = "(addr \<Rightarrow> addr \<Rightarrow> bool) \<Rightarrow> addr list \<Rightarrow> addr list"

definition applySorting :: "sorter \<Rightarrow> (addr \<Rightarrow> TestItem) \<Rightarrow> Model \<Rightarrow> Model option" where
  "applySorting srt st m =
     (let ys = srt (less_by (sortMode m) st) (filteredList m) in
      if filteredList m \<noteq> [] \<and> cursor m < int (length (filteredList m)) then
        (case index (filteredList m) (cursor m) of
           None \<Rightarrow> None
         | Some cur \<Rightarrow>
             (case index_of cur ys of
                None \<Rightarrow> Some (write_filtered ys m)
              | Some i \<Rightarrow> Some ((write_filtered ys m)\<lparr>cursor := int i\<rparr>)))
      else Some (write_filtered ys m))"

definition next_mode :: "SortMode \<Rightarrow> SortMode" where
  "next_mode md =
     (case md of SortByName \<Rightarrow> SortBySelection | SortBySelection \<Rightarrow> SortByStatus
      | SortByStatus \<Rightarrow> SortByName)"

definition toggleSortMode :: "sorter \<Rightarrow> (addr \<Rightarrow> TestItem) \<Rightarrow> Model \<Rightarrow> Model option" where
  "toggleSortMode srt st m = applySorting srt st (m\<lparr>sortMode := next_mode (sortMode m)\<rparr>)"

text \<open>
  \<^verbatim>\<open>rediscoverTests\<close>: the outcome of \<^verbatim>\<open>DiscoverTestsRecursive\<close> is an input (\<open>Inl\<close> its
  error), and so is the address \<open>n\<close> at which the allocator puts the first new item.
\<close>

definition alloc_items :: "nat \<Rightarrow> TestInfo list \<Rightarrow> (addr \<Rightarrow> TestItem) \<Rightarrow> (addr \<Rightarrow> TestItem)" where
  "alloc_items n ts st = (\<lambda>a. if n \<le> a \<and> a < n + length ts then new_item (ts ! (a - n)) else st a)"

definition rediscoverTests ::
  "sorter \<Rightarrow> string + TestInfo list \<Rightarrow> nat \<Rightarrow> (addr \<Rightarrow> TestItem) \<times> Model
     \<Rightarrow> ((addr \<Rightarrow> TestItem) \<times> Model) option" where
  "rediscoverTests srt disc n sm =
     (case disc of
        Inl err \<Rightarrow> Some sm
      | Inr ts \<Rightarrow>
          (let st = alloc_items n ts (fst sm);
               m1 = (snd sm)\<lparr>m_tests := [n..<n + length ts], shares := False\<rparr>
           in map_option (Pair st) (applySorting srt st (applyFilter st m1))))"

definition toggleRecursive ::
  "sorter \<Rightarrow> (bool \<Rightarrow> string + TestInfo list) \<Rightarrow> nat \<Rightarrow> (addr \<Rightarrow> TestItem) \<times> Model
     \<Rightarrow> ((addr \<Rightarrow> TestItem) \<times> Model) option" where
  "toggleRecursive srt discover n sm =
     rediscoverTests srt (discover (\<not> recursive (snd sm))) n
       (fst sm, (snd sm)\<lparr>recursive := \<not> recursive (snd sm)\<rparr>)"

text \<open>
  The insertion sort that \<^verbatim>\<open>sort.Slice\<close> runs on a slice of at most 12 elements: each
  element moves left while it is less than its left neighbour. \<open>ins\<close> works on the
  sorted prefix in reverse.
\<close>

fun ins :: "('a \<Rightarrow> 'a \<Rightarrow> bool) \<Rightarrow> 'a \<Rightarrow> 'a list \<Rightarrow> 'a list" where
  "ins lt x [] = [x]"
| "ins lt x (y # ys) = (if lt x y then y # ins lt x ys else x # y # ys)"

definition insertionSort :: "('a \<Rightarrow> 'a \<Rightarrow> bool) \<Rightarrow> 'a list \<Rightarrow> 'a list" where
  "insertionSort lt xs = rev (foldl (\<lambda>r x. ins lt x r) [] xs)"


text \<open>
  \<^verbatim>\<open>NewModel\<close> hands the runner the address of \<^verbatim>\<open>m.filteredList\<close>: what the session
  leaves in that variable is what the runner reads from then on.
\<close>

definition shared_write :: "Model \<Rightarrow> sys \<Rightarrow> sys" where
  "shared_write m s = SetTestList (filteredList m) s"

definition three_tests :: "TestInfo list" where
  "three_tests = [test_named ''TestA'', test_named ''TestB'', test_named ''TestC'']"

definition filter_b :: Model where
  "filter_b = (NewModel three_tests)\<lparr>filterText := ''b''\<rparr>"

text \<open>A filter that keeps all three jobs, with the cursor far past the end of the list.\<close>

definition filter_test :: Model where
  "filter_test = (NewModel three_tests)\<lparr>filterText := ''test'', cursor := 7\<rparr>"


section \<open>Scenarios\<close>

definition listed :: "sys \<Rightarrow> addr \<Rightarrow> bool" where
  "listed s a = (case tests (rnr s) of None \<Rightarrow> False | Some xs \<Rightarrow> a \<in> set xs)"

definition one_job :: sys where
  "one_job = init_sys ''logs'' [test_named ''TestA'']"

definition three_jobs :: sys where
  "three_jobs = init_sys ''logs'' three_tests"

text \<open>
  One job, the default parallelism 3, one call of \<^verbatim>\<open>QueueTest\<close>; then two of the
  spawned tasks run their first critical section.
\<close>

definition double_start :: sys where
  "double_start = exec [CallQueueTest 0 1 ''t1'', TaskBegins 0 2, TaskBegins 1 3] one_job"

text \<open>
  Two jobs started one after the other under ceilings 1 and 2, each task begun before
  the next call; then the ceiling is lowered to 1.
\<close>

definition over_ceiling :: sys where
  "over_ceiling =
     exec [CallSetMaxParallel 1, CallQueueTest 0 1 ''t1'', TaskBegins 0 2,
           CallSetMaxParallel 2, CallQueueTest 1 3 ''t3'', TaskBegins 1 4,
           CallSetMaxParallel 1] three_jobs"


text \<open>
  Job C (item 2) runs under ceiling 1 while A and B are queued behind it; then the
  ceiling is raised to 3, which leaves room for two more jobs.
\<close>

definition starved :: sys where
  "starved =
     exec [CallSetMaxParallel 1, CallQueueTest 2 1 ''t1'', TaskBegins 0 2,
           CallQueueTest 0 3 ''t3'', CallQueueTest 1 4 ''t4'',
           CallSetMaxParallel 3] three_jobs"

text \<open>
  Three idle jobs under the default ceiling 3; A and B are selected and run
  (\<^verbatim>\<open>runSelectedTests\<close> calls \<^verbatim>\<open>QueueTest\<close> on each in turn).
\<close>

definition two_selected :: sys where
  "two_selected = exec [CallQueueTest 0 1 ''t1'', CallQueueTest 1 1 ''t1''] three_jobs"

text \<open>One job under ceiling 1 whose task has begun.\<close>

definition one_running :: sys where
  "one_running =
     exec [CallSetMaxParallel 1, CallQueueTest 0 1 ''t1'', TaskBegins 0 2] one_job"

text \<open>The same job when \<^verbatim>\<open>os.Create\<close> fails on its log file, to the end of the task.\<close>

definition create_failed :: sys where
  "create_failed = exec [TaskCreateFails 0 3, TaskFinishes 0] one_running"

text \<open>Job B runs under ceiling 1 and job A is queued behind it; then A is stopped.\<close>

definition queued_behind :: sys where
  "queued_behind =
     exec [CallSetMaxParallel 1, CallQueueTest 1 1 ''t1'', TaskBegins 0 2,
           CallQueueTest 0 3 ''t3''] three_jobs"

definition stopped :: sys where
  "stopped = exec [CallStopTest 0] queued_behind"

text \<open>
  Four jobs under ceiling 1: D (item 3) runs, A, B and C are queued in that order, the
  session moves C above A (the list the runner reads becomes C, A, B, D), then D
  completes.
\<close>

definition reordered :: sys where
  "reordered =
     exec [CallSetMaxParallel 1, CallQueueTest 3 1 ''t1'', TaskBegins 0 2,
           CallQueueTest 0 3 ''t3'', CallQueueTest 1 4 ''t4'', CallQueueTest 2 5 ''t5'',
           WriteTestList [2, 0, 1, 3], TaskCompletes 0 False 6, TaskFinishes 0]
       (init_sys ''logs'' [test_named ''TestA'', test_named ''TestB'', test_named ''TestC'',
                           test_named ''TestD''])"

definition search_view :: "Model \<Rightarrow> int \<times> int \<times> bool" where
  "search_view m = (currentMatchIdx m, outputScroll m, autoScroll m)"

text \<open>The output buffer and search text of the specification's example.\<close>

definition search_foo :: Model where
  "search_foo =
     (NewModel [])\<lparr>outputLines := [''foo'', ''bar'', ''FOO'', ''baz''], searchText := ''foo''\<rparr>"

text \<open>Three jobs listed by name, sorted by selection, the cursor on the first.\<close>

definition sel_model :: Model where
  "sel_model = (NewModel three_tests)\<lparr>sortMode := SortBySelection\<rparr>"

text \<open>A rediscovery that finds two tests, allocated at addresses 3 and 4.\<close>

definition rediscovered :: "((addr \<Rightarrow> TestItem) \<times> Model) option" where
  "rediscovered =
     rediscoverTests insertionSort (Inr [test_named ''TestZ'', test_named ''TestY'']) 3
       (store three_jobs, NewModel three_tests)"

section \<open>The admission pass\<close>

lemma admit_loop_full:
  "\<not> running (rnr s) < maxParallel (rnr s) \<Longrightarrow> admit_loop xs s = s"
  by (simp add: admit_loop.simps)

lemma admit_loop_none:
  "find (queued s) xs = None \<Longrightarrow> admit_loop xs s = s"
  by (simp add: admit_loop.simps)

lemma queued_go [simp]:
  "queued (go_runTest a s) = queued s" "queued (incr_running s) = queued s"
  by (auto simp: queued_def go_runTest_def incr_running_def fun_eq_iff)

text \<open>
  What a pass does when nothing runs in between: it spawns the first queued item of the
  list as many times as there is capacity.
\<close>

lemma admit_loop_closed:
  "admit_loop xs s =
     (case find (queued s) xs of
        None \<Rightarrow> s
      | Some a \<Rightarrow>
          if running (rnr s) < maxParallel (rnr s) then
            s\<lparr>rnr := (rnr s)\<lparr>running := maxParallel (rnr s)\<rparr>,
              tasks := tasks s @ spawn_tasks a (spawned s) (nat (maxParallel (rnr s) - running (rnr s))),
              spawned := spawned s + nat (maxParallel (rnr s) - running (rnr s))\<rparr>
          else s)"
proof (induction xs s rule: admit_loop.induct)
  case (1 xs s)
  show ?case
  proof (cases "running (rnr s) < maxParallel (rnr s)")
    case False
    then show ?thesis by (simp add: admit_loop_full split: option.splits)
  next
    case True
    show ?thesis
    proof (cases "find (queued s) xs")
      case None
      then show ?thesis by (simp add: admit_loop_none)
    next
      case (Some a)
      let ?s = "go_runTest a (incr_running s)"
      have eq: "admit_loop xs s = admit_loop xs ?s"
        using True Some by (subst admit_loop.simps) simp
      have k: "nat (maxParallel (rnr s) - running (rnr s))
                 = Suc (nat (maxParallel (rnr s) - (running (rnr s) + 1)))"
        using True by simp
      have q: "find (queued ?s) xs = Some a" using Some by simp
      have f: "running (rnr ?s) = running (rnr s) + 1"
        "maxParallel (rnr ?s) = maxParallel (rnr s)"
        "spawned ?s = Suc (spawned s)"
        "tasks ?s = tasks s @ [\<lparr>tid = spawned s, titem = a, tpc = Spawned\<rparr>]"
        by (simp_all add: go_runTest_def incr_running_def)
      have ih: "admit_loop xs ?s =
          (if running (rnr ?s) < maxParallel (rnr ?s) then
            ?s\<lparr>rnr := (rnr ?s)\<lparr>running := maxParallel (rnr ?s)\<rparr>,
              tasks := tasks ?s @ spawn_tasks a (spawned ?s)
                         (nat (maxParallel (rnr ?s) - running (rnr ?s))),
              spawned := spawned ?s + nat (maxParallel (rnr ?s) - running (rnr ?s))\<rparr>
          else ?s)"
        using "1.IH"[OF True Some] by (simp only: q option.case)
      show ?thesis
      proof (cases "running (rnr s) + 1 < maxParallel (rnr s)")
        case True
        then show ?thesis
          unfolding eq ih f using Some
          by (simp add: k) (simp add: go_runTest_def incr_running_def)
      next
        case False
        then have "maxParallel (rnr s) = running (rnr s) + 1" using True by simp
        then show ?thesis
          unfolding eq ih f using Some
          by simp (simp add: go_runTest_def incr_running_def)
      qed
    qed
  qed
qed

lemma tryStartNext_store [simp]: "store (tryStartNext s) = store s"
  by (simp add: tryStartNext_def admit_loop_closed split: option.splits)

lemma tryStartNext_cancelled [simp]: "cancelled (tryStartNext s) = cancelled s"
  by (simp add: tryStartNext_def admit_loop_closed split: option.splits)

lemma tryStartNext_maxParallel [simp]:
  "maxParallel (rnr (tryStartNext s)) = maxParallel (rnr s)"
  by (simp add: tryStartNext_def admit_loop_closed split: option.splits)

lemma tryStartNext_tests [simp]: "tests (rnr (tryStartNext s)) = tests (rnr s)"
  by (simp add: tryStartNext_def admit_loop_closed split: option.splits)

lemma tryStartNext_logDir [simp]: "logDir (rnr (tryStartNext s)) = logDir (rnr s)"
  by (simp add: tryStartNext_def admit_loop_closed split: option.splits)

lemma tryStartNext_queued [simp]: "queued (tryStartNext s) = queued s"
  by (simp add: queued_def fun_eq_iff)

lemma tryStartNext_listed [simp]: "listed (tryStartNext s) = listed s"
  by (simp add: listed_def fun_eq_iff)

lemma tryStartNext_running:
  "running (rnr (tryStartNext s)) \<le> max (running (rnr s)) (maxParallel (rnr s))"
  "running (rnr s) \<le> running (rnr (tryStartNext s))"
  by (simp_all add: tryStartNext_def admit_loop_closed split: option.splits)

lemma spawn_tasks_other:
  "a \<noteq> b \<Longrightarrow> filter (\<lambda>t. titem t = a) (spawn_tasks b c k) = []"
  by (induction k arbitrary: c) simp_all

lemma find_queued_Some:
  "find (queued s) xs = Some b \<Longrightarrow> queued s b \<and> b \<in> set xs"
  by (auto simp: find_Some_iff)

text \<open>A pass spawns no task for an item that is not queued or not in the list.\<close>

lemma tryStartNext_in_flight:
  assumes "\<not> (queued s a \<and> listed s a)"
  shows "in_flight (tryStartNext s) a = in_flight s a"
proof (cases "tests (rnr s)")
  case None
  then show ?thesis by (simp add: tryStartNext_def)
next
  case (Some xs)
  show ?thesis
  proof (cases "find (queued s) xs")
    case None
    then show ?thesis using Some by (simp add: tryStartNext_def admit_loop_closed)
  next
    case (Some b)
    then have "queued s b \<and> b \<in> set xs" by (rule find_queued_Some)
    then have "a \<noteq> b" using assms \<open>tests (rnr s) = Some xs\<close> by (auto simp: listed_def)
    then show ?thesis using Some \<open>tests (rnr s) = Some xs\<close>
      by (simp add: tryStartNext_def admit_loop_closed in_flight_def spawn_tasks_other)
  qed
qed

lemma set_pc_in_flight [simp]: "in_flight (set_pc c p s) a = in_flight s a"
proof -
  have "length (filter (\<lambda>t. titem t = a) (map (\<lambda>t. if tid t = c then t\<lparr>tpc := p\<rparr> else t) ts))
        = length (filter (\<lambda>t. titem t = a) ts)" for ts
    by (induction ts) auto
  then show ?thesis by (simp add: in_flight_def set_pc_def)
qed

lemma retire_in_flight: "in_flight (retire c s) a \<le> in_flight s a"
proof -
  have "length (filter (\<lambda>t. titem t = a) (filter (\<lambda>t. tid t \<noteq> c) ts))
        \<le> length (filter (\<lambda>t. titem t = a) ts)" for ts
    by (induction ts) auto
  then show ?thesis by (simp add: in_flight_def retire_def)
qed

lemmas run_defs =
  three_tests_def init_sys_def SetTestList_def NewTestRunner_def QueueTest_def StopTest_def SetMaxParallel_def
  Let_def tryStartNext_def admit_loop_closed queued_def new_item_def test_named_def
  task_at_def set_pc_def retire_def runTest_begin_def runTest_createFailed_def runTest_done_def
  testFinished_def in_flight_def task_view_def eval_nat_numeral

section \<open>The running count counts the tasks in flight\<close>

lemma spawn_tasks_tids: "map tid (spawn_tasks a c k) = [c..<c + k]"
  by (induction k arbitrary: c) (simp_all add: upt_rec)

lemma length_spawn_tasks [simp]: "length (spawn_tasks a c k) = k"
  by (induction k arbitrary: c) simp_all

lemma spawn_tasks_tid_range:
  "t \<in> set (spawn_tasks a c k) \<Longrightarrow> c \<le> tid t \<and> tid t < c + k"
proof -
  assume "t \<in> set (spawn_tasks a c k)"
  then have "tid t \<in> set (map tid (spawn_tasks a c k))" by simp
  then show ?thesis by (simp add: spawn_tasks_tids)
qed

lemma tryStartNext_counted: "counted s \<Longrightarrow> counted (tryStartNext s)"
proof (cases "tests (rnr s)")
  case None
  then show "counted s \<Longrightarrow> counted (tryStartNext s)" by (simp add: tryStartNext_def)
next
  case (Some xs)
  assume c: "counted s"
  show "counted (tryStartNext s)"
  proof (cases "find (queued s) xs")
    case None
    then show ?thesis using Some c by (simp add: tryStartNext_def admit_loop_closed)
  next
    case (Some a)
    show ?thesis
    proof (cases "running (rnr s) < maxParallel (rnr s)")
      case False
      then show ?thesis using Some \<open>tests (rnr s) = Some xs\<close> c
        by (simp add: tryStartNext_def admit_loop_closed)
    next
      case True
      let ?k = "nat (maxParallel (rnr s) - running (rnr s))"
      have t: "tryStartNext s = s\<lparr>rnr := (rnr s)\<lparr>running := maxParallel (rnr s)\<rparr>,
              tasks := tasks s @ spawn_tasks a (spawned s) ?k,
              spawned := spawned s + ?k\<rparr>"
        using True Some \<open>tests (rnr s) = Some xs\<close> by (simp add: tryStartNext_def admit_loop_closed)
      have d: "distinct (map tid (tasks s) @ [spawned s..<spawned s + ?k])"
        using c by (auto simp: counted_def)
      have l: "maxParallel (rnr s) = int (length (tasks s)) + int ?k"
        using c True by (simp add: counted_def)
      have b: "\<forall>t \<in> set (tasks s @ spawn_tasks a (spawned s) ?k). tid t < spawned s + ?k"
        using c by (auto simp: counted_def dest: spawn_tasks_tid_range)
      show ?thesis unfolding t using d l b by (simp add: counted_def spawn_tasks_tids)
    qed
  qed
qed

lemma counted_fields:
  "rnr s' = rnr s \<Longrightarrow> tasks s' = tasks s \<Longrightarrow> spawned s' = spawned s \<Longrightarrow> counted s' = counted s"
  by (simp add: counted_def)

lemma set_pc_counted: "counted s \<Longrightarrow> counted (set_pc c p s)"
proof -
  have "map tid (map (\<lambda>t. if tid t = c then t\<lparr>tpc := p\<rparr> else t) ts) = map tid ts" for ts
    by (induction ts) auto
  then have "map tid (tasks (set_pc c p s)) = map tid (tasks s)" by (simp add: set_pc_def)
  moreover have "set (map tid (tasks (set_pc c p s))) = tid ` set (tasks (set_pc c p s))"
    by simp
  ultimately have "tid ` set (tasks (set_pc c p s)) = tid ` set (tasks s)" by simp
  then have b: "(\<forall>t \<in> set (tasks (set_pc c p s)). tid t < n) = (\<forall>t \<in> set (tasks s). tid t < n)" for n
    by (metis (no_types, lifting) image_iff)
  have l: "length (tasks (set_pc c p s)) = length (tasks s)" by (simp add: set_pc_def)
  have r: "rnr (set_pc c p s) = rnr s" "spawned (set_pc c p s) = spawned s"
    by (simp_all add: set_pc_def)
  show "counted s \<Longrightarrow> counted (set_pc c p s)"
    unfolding counted_def b l r \<open>map tid (tasks (set_pc c p s)) = map tid (tasks s)\<close> .
qed

lemma task_at_in_tasks: "task_at c p s = Some a \<Longrightarrow> \<exists>t \<in> set (tasks s). tid t = c"
  by (auto simp: task_at_def find_Some_iff split: option.splits if_splits)

lemma length_filter_tid:
  "distinct (map tid ts) \<Longrightarrow> \<exists>t \<in> set ts. tid t = c
     \<Longrightarrow> Suc (length (filter (\<lambda>t. tid t \<noteq> c) ts)) = length ts"
proof (induction ts)
  case Nil
  then show ?case by simp
next
  case (Cons t ts)
  show ?case
  proof (cases "tid t = c")
    case True
    then have "\<forall>u \<in> set ts. tid u \<noteq> c" using Cons.prems(1) by (auto simp: image_iff)
    then have "filter (\<lambda>t. tid t \<noteq> c) ts = ts" by (simp add: filter_id_conv)
    then show ?thesis using True by simp
  next
    case False
    then show ?thesis using Cons by auto
  qed
qed

lemma retire_counted:
  assumes "counted s" "task_at c p s = Some a"
  shows "counted ((retire c s)\<lparr>rnr := (rnr (retire c s))\<lparr>running := running (rnr (retire c s)) - 1\<rparr>\<rparr>)"
proof -
  have "Suc (length (filter (\<lambda>t. tid t \<noteq> c) (tasks s))) = length (tasks s)"
    using assms by (intro length_filter_tid task_at_in_tasks) (auto simp: counted_def)
  then have "int (length (tasks s)) - 1 = int (length (filter (\<lambda>t. tid t \<noteq> c) (tasks s)))"
    by linarith
  then show ?thesis using assms(1)
    by (auto simp: counted_def retire_def distinct_map_filter)
qed

lemma step_counted: "counted s \<Longrightarrow> counted (step e s)"
proof (cases e)
  case (CallQueueTest a now stamp)
  assume c: "counted s"
  let ?s = "s\<lparr>store := (store s)(a := (store s a)
            \<lparr>Status := StatusQueued, QueuedAt := now,
             LogFile := Join (logDir (rnr s)) (Name (Info (store s a)) @ ''.'' @ stamp @ ''.log'')\<rparr>)\<rparr>"
  have "counted ?s" using c by (simp add: counted_def)
  then have "counted (tryStartNext ?s)" by (rule tryStartNext_counted)
  then show ?thesis using CallQueueTest c by (simp add: QueueTest_def Let_def)
next
  case (CallStopTest a)
  assume "counted s"
  then show ?thesis using CallStopTest
    by (auto simp: StopTest_def Let_def counted_def split: TestStatus.splits option.splits)
next
  case (CallSetMaxParallel n)
  assume "counted s"
  then have "counted (s\<lparr>rnr := (rnr s)\<lparr>maxParallel := n\<rparr>\<rparr>)" by (simp add: counted_def)
  then show ?thesis using CallSetMaxParallel by (simp add: SetMaxParallel_def tryStartNext_counted)
next
  case (WriteTestList xs)
  assume "counted s"
  then show ?thesis using WriteTestList by (simp add: SetTestList_def counted_def)
next
  case (TaskBegins c now)
  assume "counted s"
  then have "counted (runTest_begin c a now s)" for a by (simp add: counted_def runTest_begin_def)
  then show ?thesis using TaskBegins \<open>counted s\<close> by (simp add: set_pc_counted split: option.splits)
next
  case (TaskCreateFails c now)
  assume "counted s"
  then have "counted (runTest_createFailed a now s)" for a
    by (simp add: counted_def runTest_createFailed_def)
  then show ?thesis using TaskCreateFails \<open>counted s\<close>
    by (simp add: set_pc_counted split: option.splits)
next
  case (TaskCompletes c err now)
  assume "counted s"
  then have "counted (runTest_done c a err now s)" for a
    by (simp add: counted_def runTest_done_def)
  then show ?thesis using TaskCompletes \<open>counted s\<close>
    by (simp add: set_pc_counted split: option.splits)
next
  case (TaskFinishes c)
  assume c: "counted s"
  show ?thesis
  proof (cases "task_at c Finished s")
    case None
    then show ?thesis using TaskFinishes c by simp
  next
    case (Some a)
    then show ?thesis using TaskFinishes retire_counted[OF c Some]
      by (simp add: testFinished_def tryStartNext_counted)
  qed
qed

lemma exec_counted: "counted s \<Longrightarrow> counted (exec es s)"
  by (induction es arbitrary: s) (simp_all add: step_counted)

lemma init_counted: "counted (init_sys dir ts)"
  by (simp add: counted_def init_sys_def SetTestList_def NewTestRunner_def)

lemma reachable_running:
  "running (rnr (exec es (init_sys dir ts))) = int (length (tasks (exec es (init_sys dir ts))))"
  using exec_counted[OF init_counted, of es dir ts] by (simp add: counted_def)

section \<open>Enqueueing and starting a job once\<close>

lemma QueueTest_noop:
  "Status (store s a) = StatusQueued \<or> Status (store s a) = StatusRunning
     \<Longrightarrow> QueueTest a now stamp s = s"
  by (auto simp: QueueTest_def Let_def)

text \<open>
  C1. \<^verbatim>\<open>QueueTest\<close> on a job that is Queued or Running changes nothing
  (\<open>QueueTest_noop\<close>), but the scheduler does start one job several times at once. With
  one job and the default ceiling 3, a single \<^verbatim>\<open>QueueTest\<close> makes \<^verbatim>\<open>tryStartNext\<close> find
  the job Queued on each of its three iterations, since only the spawned task marks it
  Running: three tasks are in flight for the job, and two of them have already entered
  \<^verbatim>\<open>runTest\<close>.
\<close>

theorem C1_one_job_three_tasks:
  "task_view double_start = [(0, Started), (0, Started), (0, Spawned)]
   \<and> in_flight double_start 0 = 3
   \<and> running (rnr double_start) = 3
   \<and> Status (store double_start 0) = StatusRunning"
  by (simp add: double_start_def one_job_def run_defs)

section \<open>The running count and the ceiling\<close>

lemma step_running_le:
  "running (rnr (step e s)) \<le> max (running (rnr s)) (maxParallel (rnr (step e s)))"
proof (cases e)
  case (CallQueueTest a now stamp)
  then show ?thesis
    using tryStartNext_running(1)[of "s\<lparr>store := (store s)(a := (store s a)
            \<lparr>Status := StatusQueued, QueuedAt := now,
             LogFile := Join (logDir (rnr s)) (Name (Info (store s a)) @ ''.'' @ stamp @ ''.log'')\<rparr>)\<rparr>"]
    by (simp add: QueueTest_def Let_def)
next
  case (CallStopTest a)
  then show ?thesis by (simp add: StopTest_def Let_def split: TestStatus.splits option.splits)
next
  case (CallSetMaxParallel n)
  then show ?thesis
    using tryStartNext_running(1)[of "s\<lparr>rnr := (rnr s)\<lparr>maxParallel := n\<rparr>\<rparr>"]
    by (simp add: SetMaxParallel_def)
next
  case (WriteTestList xs)
  then show ?thesis by (simp add: SetTestList_def)
next
  case (TaskBegins c now)
  then show ?thesis by (simp add: set_pc_def runTest_begin_def split: option.splits)
next
  case (TaskCreateFails c now)
  then show ?thesis by (simp add: set_pc_def runTest_createFailed_def split: option.splits)
next
  case (TaskCompletes c err now)
  then show ?thesis by (simp add: set_pc_def runTest_done_def split: option.splits)
next
  case (TaskFinishes c)
  then show ?thesis
    using tryStartNext_running(1)[of "(retire c s)\<lparr>rnr := (rnr (retire c s))
            \<lparr>running := running (rnr (retire c s)) - 1\<rparr>\<rparr>"]
    by (auto simp: testFinished_def retire_def split: option.splits)
qed

lemma step_maxParallel:
  "maxParallel (rnr (step e s))
     = (case e of CallSetMaxParallel n \<Rightarrow> n | _ \<Rightarrow> maxParallel (rnr s))"
  by (cases e) (simp_all add: QueueTest_def Let_def StopTest_def SetMaxParallel_def
      SetTestList_def set_pc_def runTest_begin_def runTest_createFailed_def runTest_done_def
      testFinished_def retire_def split: TestStatus.splits option.splits)

text \<open>
  C2, as stated, fails: with two jobs running under ceiling 2, \<^verbatim>\<open>SetMaxParallel(1)\<close>
  leaves the running count at 2, above the ceiling.
\<close>

theorem C2_running_above_ceiling:
  "running (rnr over_ceiling) = 2 \<and> maxParallel (rnr over_ceiling) = 1
   \<and> \<not> running (rnr over_ceiling) \<le> maxParallel (rnr over_ceiling)"
  by (simp add: over_ceiling_def three_jobs_def run_defs)

text \<open>
  C2, amended. No step of the scheduler raises the running count above the ceiling in
  force after the step: the count after a step is at most the larger of the count before
  it and the ceiling. So \<open>running \<le> maxParallel\<close> is kept by every step except a
  \<^verbatim>\<open>SetMaxParallel(n)\<close> with \<open>n\<close> below the current count.
\<close>

theorem C2_running_bounded:
  "running (rnr (step e s)) \<le> max (running (rnr s)) (maxParallel (rnr (step e s))) \<and>
   (running (rnr s) \<le> maxParallel (rnr s)
      \<and> (\<forall>n. e = CallSetMaxParallel n \<longrightarrow> running (rnr s) \<le> n)
    \<longrightarrow> running (rnr (step e s)) \<le> maxParallel (rnr (step e s)))"
  using step_running_le[of e s] step_maxParallel[of e s]
  by (cases e) auto

theorem C2_running_bounded_witness:
  "running (rnr three_jobs) \<le> maxParallel (rnr three_jobs)
   \<and> running (rnr (step (CallQueueTest 0 1 ''t1'') three_jobs))
        \<le> maxParallel (rnr (step (CallQueueTest 0 1 ''t1'') three_jobs))
   \<and> running (rnr one_running) \<le> maxParallel (rnr one_running)
   \<and> running (rnr one_running) \<le> 2
   \<and> running (rnr (step (CallSetMaxParallel 2) one_running))
        \<le> maxParallel (rnr (step (CallSetMaxParallel 2) one_running))"
proof -
  have h: "running (rnr three_jobs) \<le> maxParallel (rnr three_jobs)"
    by (simp add: three_jobs_def run_defs)
  have k: "running (rnr one_running) \<le> maxParallel (rnr one_running)"
    "running (rnr one_running) \<le> 2"
    by (simp_all add: one_running_def one_job_def run_defs)
  show ?thesis
    using h k C2_running_bounded[of "CallQueueTest 0 1 ''t1''" three_jobs]
      C2_running_bounded[of "CallSetMaxParallel 2" one_running]
    by simp
qed

section \<open>Steps that cannot admit a job\<close>

lemma set_pc_fields [simp]:
  "store (set_pc c p s) = store s" "rnr (set_pc c p s) = rnr s"
  "cancelled (set_pc c p s) = cancelled s"
  by (simp_all add: set_pc_def)

lemma retire_fields [simp]:
  "store (retire c s) = store s" "rnr (retire c s) = rnr s"
  "cancelled (retire c s) = cancelled s"
  by (simp_all add: retire_def)

lemma runTest_in_flight [simp]:
  "in_flight (runTest_begin c b now s) a = in_flight s a"
  "in_flight (runTest_createFailed b now s) a = in_flight s a"
  "in_flight (runTest_done c b err now s) a = in_flight s a"
  by (simp_all add: in_flight_def runTest_begin_def runTest_createFailed_def runTest_done_def)

lemma runTest_tasks [simp]:
  "tasks (runTest_begin c b now s) = tasks s"
  "tasks (runTest_createFailed b now s) = tasks s"
  "tasks (runTest_done c b err now s) = tasks s"
  by (simp_all add: runTest_begin_def runTest_createFailed_def runTest_done_def)

lemma runTest_rnr [simp]:
  "rnr (runTest_begin c b now s) = rnr s"
  "rnr (runTest_createFailed b now s) = rnr s"
  "rnr (runTest_done c b err now s) = rnr s"
  by (simp_all add: runTest_begin_def runTest_createFailed_def runTest_done_def)

lemma runTest_not_queued:
  "\<not> queued s a \<Longrightarrow> \<not> queued (runTest_begin c b now s) a"
  "\<not> queued s a \<Longrightarrow> \<not> queued (runTest_createFailed b now s) a"
  "\<not> queued s a \<Longrightarrow> \<not> queued (runTest_done c b err now s) a"
  by (simp_all add: queued_def runTest_begin_def runTest_createFailed_def runTest_done_def)

lemma queued_set_pc [simp]: "queued (set_pc c p s) = queued s"
  by (simp add: queued_def fun_eq_iff)

lemma step_not_queued:
  assumes "\<not> queued s a" "\<not> queues a e"
  shows "\<not> queued (step e s) a \<and> in_flight (step e s) a \<le> in_flight s a"
proof (cases e)
  case (CallQueueTest b now stamp)
  then have ne: "a \<noteq> b" using assms(2) by simp
  let ?s = "s\<lparr>store := (store s)(b := (store s b)
            \<lparr>Status := StatusQueued, QueuedAt := now,
             LogFile := Join (logDir (rnr s)) (Name (Info (store s b)) @ ''.'' @ stamp @ ''.log'')\<rparr>)\<rparr>"
  have q: "\<not> queued ?s a" using assms(1) ne by (simp add: queued_def)
  have "in_flight (tryStartNext ?s) a = in_flight ?s a"
    using q by (intro tryStartNext_in_flight) simp
  moreover have "in_flight ?s a = in_flight s a" by (simp add: in_flight_def)
  ultimately show ?thesis using CallQueueTest assms(1) q
    by (simp add: QueueTest_def Let_def)
next
  case (CallStopTest b)
  then show ?thesis using assms(1)
    by (auto simp: StopTest_def Let_def queued_def in_flight_def split: TestStatus.splits option.splits)
next
  case (CallSetMaxParallel n)
  let ?s = "s\<lparr>rnr := (rnr s)\<lparr>maxParallel := n\<rparr>\<rparr>"
  have q: "\<not> queued ?s a" using assms(1) by (simp add: queued_def)
  have "in_flight (tryStartNext ?s) a = in_flight ?s a"
    using q by (intro tryStartNext_in_flight) simp
  moreover have "in_flight ?s a = in_flight s a" by (simp add: in_flight_def)
  ultimately show ?thesis using CallSetMaxParallel q by (simp add: SetMaxParallel_def)
next
  case (WriteTestList xs)
  then show ?thesis using assms(1) by (simp add: SetTestList_def queued_def in_flight_def)
next
  case (TaskBegins c now)
  then show ?thesis using assms(1)
    by (simp add: runTest_not_queued split: option.splits)
next
  case (TaskCreateFails c now)
  then show ?thesis using assms(1)
    by (simp add: runTest_not_queued split: option.splits)
next
  case (TaskCompletes c err now)
  then show ?thesis using assms(1)
    by (simp add: runTest_not_queued split: option.splits)
next
  case (TaskFinishes c)
  show ?thesis
  proof (cases "task_at c Finished s")
    case None
    then show ?thesis using TaskFinishes assms(1) by simp
  next
    case (Some b)
    let ?s = "(retire c s)\<lparr>rnr := (rnr (retire c s))\<lparr>running := running (rnr (retire c s)) - 1\<rparr>\<rparr>"
    have q: "\<not> queued ?s a" using assms(1) by (simp add: queued_def retire_def)
    have "in_flight (tryStartNext ?s) a = in_flight ?s a"
      using q by (intro tryStartNext_in_flight) simp
    moreover have "in_flight ?s a = in_flight (retire c s) a" by (simp add: in_flight_def)
    ultimately show ?thesis using TaskFinishes Some q retire_in_flight[of c s a]
      by (simp add: testFinished_def)
  qed
qed


lemma exec_not_queued:
  "\<not> queued s a \<Longrightarrow> \<not> list_ex (queues a) es
     \<Longrightarrow> \<not> queued (exec es s) a \<and> in_flight (exec es s) a \<le> in_flight s a"
proof (induction es arbitrary: s)
  case Nil
  then show ?case by simp
next
  case (Cons e es)
  then have st: "\<not> queued (step e s) a \<and> in_flight (step e s) a \<le> in_flight s a"
    by (intro step_not_queued) simp_all
  then have "\<not> queued (exec es (step e s)) a
             \<and> in_flight (exec es (step e s)) a \<le> in_flight (step e s) a"
    using Cons by simp
  then show ?case using st by simp
qed

lemma step_not_listed:
  assumes "\<not> listed s a" "\<not> relists a e"
  shows "\<not> listed (step e s) a \<and> in_flight (step e s) a \<le> in_flight s a"
proof (cases e)
  case (CallQueueTest b now stamp)
  let ?s = "s\<lparr>store := (store s)(b := (store s b)
            \<lparr>Status := StatusQueued, QueuedAt := now,
             LogFile := Join (logDir (rnr s)) (Name (Info (store s b)) @ ''.'' @ stamp @ ''.log'')\<rparr>)\<rparr>"
  have q: "\<not> listed ?s a" using assms(1) by (simp add: listed_def)
  have "in_flight (tryStartNext ?s) a = in_flight ?s a"
    using q by (intro tryStartNext_in_flight) simp
  moreover have "in_flight ?s a = in_flight s a" by (simp add: in_flight_def)
  ultimately show ?thesis using CallQueueTest assms(1) q
    by (simp add: QueueTest_def Let_def)
next
  case (CallStopTest b)
  then show ?thesis using assms(1)
    by (auto simp: StopTest_def Let_def listed_def in_flight_def split: TestStatus.splits option.splits)
next
  case (CallSetMaxParallel n)
  let ?s = "s\<lparr>rnr := (rnr s)\<lparr>maxParallel := n\<rparr>\<rparr>"
  have q: "\<not> listed ?s a" using assms(1) by (simp add: listed_def)
  have "in_flight (tryStartNext ?s) a = in_flight ?s a"
    using q by (intro tryStartNext_in_flight) simp
  moreover have "in_flight ?s a = in_flight s a" by (simp add: in_flight_def)
  ultimately show ?thesis using CallSetMaxParallel q by (simp add: SetMaxParallel_def)
next
  case (WriteTestList xs)
  then show ?thesis using assms(2) by (simp add: SetTestList_def listed_def in_flight_def)
next
  case (TaskBegins c now)
  then show ?thesis using assms(1)
    by (simp add: listed_def split: option.splits)
next
  case (TaskCreateFails c now)
  then show ?thesis using assms(1)
    by (simp add: listed_def split: option.splits)
next
  case (TaskCompletes c err now)
  then show ?thesis using assms(1)
    by (simp add: listed_def split: option.splits)
next
  case (TaskFinishes c)
  show ?thesis
  proof (cases "task_at c Finished s")
    case None
    then show ?thesis using TaskFinishes assms(1) by simp
  next
    case (Some b)
    let ?s = "(retire c s)\<lparr>rnr := (rnr (retire c s))\<lparr>running := running (rnr (retire c s)) - 1\<rparr>\<rparr>"
    have q: "\<not> listed ?s a" using assms(1) by (simp add: listed_def)
    have "in_flight (tryStartNext ?s) a = in_flight ?s a"
      using q by (intro tryStartNext_in_flight) simp
    moreover have "in_flight ?s a = in_flight (retire c s) a" by (simp add: in_flight_def)
    ultimately show ?thesis using TaskFinishes Some q retire_in_flight[of c s a]
      by (simp add: testFinished_def)
  qed
qed

lemma exec_not_listed:
  "\<not> listed s a \<Longrightarrow> \<not> list_ex (relists a) es
     \<Longrightarrow> \<not> listed (exec es s) a \<and> in_flight (exec es s) a \<le> in_flight s a"
proof (induction es arbitrary: s)
  case Nil
  then show ?case by simp
next
  case (Cons e es)
  then have st: "\<not> listed (step e s) a \<and> in_flight (step e s) a \<le> in_flight s a"
    by (intro step_not_listed) simp_all
  then have "\<not> listed (exec es (step e s)) a
             \<and> in_flight (exec es (step e s)) a \<le> in_flight (step e s) a"
    using Cons by simp
  then show ?case using st by simp
qed

section \<open>Admission order\<close>

text \<open>
  What the pass does hold to: with capacity and a queued job in the list, every task it
  spawns is for the first queued job in the list's order, the running count goes up to
  the ceiling, and no item is written.
\<close>

lemma tryStartNext_first_queued:
  assumes "tests (rnr s) = Some xs" "running (rnr s) < maxParallel (rnr s)"
    "find (queued s) xs = Some a"
  shows "tasks (tryStartNext s)
           = tasks s @ spawn_tasks a (spawned s) (nat (maxParallel (rnr s) - running (rnr s)))"
    and "running (rnr (tryStartNext s)) = maxParallel (rnr s)"
    and "store (tryStartNext s) = store s"
  using assms by (simp_all add: tryStartNext_def admit_loop_closed)

lemma move_up_twice:
  "map_option filteredList
     (Option.bind (moveItemUp ((NewModel (three_tests @ [test_named ''TestD'']))\<lparr>cursor := 2\<rparr>))
        moveItemUp) = Some [2, 0, 1, 3]"
  by (simp add: moveItemUp_def NewModel_def three_tests_def write_filtered_def swap_def
      eval_nat_numeral)

lemma reordered_runs_C_first:
  "task_view reordered = [(2, Spawned)] \<and> running (rnr reordered) = 1"
  by (simp add: reordered_def run_defs)

text \<open>
  C3. Admission follows the list's order, but the pass does not mark the admitted job
  Running: the mark and the start time are written by the spawned task. With A and B
  queued and room for two, the pass spawns A twice and leaves B waiting; after it, A is
  still Queued with no start time and is still counted as queued. The same happens from
  the initial state when A and B are selected and run: the pass of the first
  \<^verbatim>\<open>QueueTest\<close> spawns A three times and B finds no room.
\<close>

theorem C3_pass_repeats_first_job:
  "task_view starved = [(2, Started), (0, Spawned), (0, Spawned)]
   \<and> tests (rnr starved) = Some [0, 1, 2]
   \<and> Status (store starved 0) = StatusQueued
   \<and> StartedAt (store starved 0) = 0
   \<and> Status (store starved 1) = StatusQueued
   \<and> in_flight starved 1 = 0
   \<and> running (rnr starved) = 3
   \<and> GetQueuedCount starved = 2
   \<and> task_view two_selected = [(0, Spawned), (0, Spawned), (0, Spawned)]
   \<and> Status (store two_selected 0) = StatusQueued
   \<and> Status (store two_selected 1) = StatusQueued
   \<and> in_flight two_selected 1 = 0"
  by (simp add: starved_def two_selected_def three_jobs_def run_defs GetQueuedCount_def)

section \<open>Stopping a queued job\<close>

text \<open>
  C4, as stated, fails: \<^verbatim>\<open>StopTest\<close> on a queued job resets the status and nothing
  else, so the time at which the job was queued stays in \<^verbatim>\<open>QueuedAt\<close>.
\<close>

theorem C4_queued_time_kept:
  "Status (store queued_behind 0) = StatusQueued
   \<and> Status (store stopped 0) = StatusIdle
   \<and> QueuedAt (store stopped 0) = 3
   \<and> LogFile (store stopped 0) = ''logs/TestA.t3.log''"
  by (simp add: stopped_def queued_behind_def three_jobs_def run_defs Join_def)

text \<open>
  C4, amended. \<^verbatim>\<open>StopTest\<close> on a queued job sets its status to Idle and changes nothing
  else: the three timestamps and the log file name keep their values, and \<^verbatim>\<open>Duration\<close>
  of an idle job is 0 whatever they are. From then on, whatever the session and the tasks
  do, as long as \<^verbatim>\<open>QueueTest\<close> is not called on the job again it is never Queued and no
  admission pass spawns a task for it.
\<close>

theorem C4_stop_queued:
  assumes "Status (store s a) = StatusQueued"
  shows "StopTest a s = s\<lparr>store := (store s)(a := (store s a)\<lparr>Status := StatusIdle\<rparr>)\<rparr>
       \<and> Status (store (StopTest a s) a) = StatusIdle
       \<and> QueuedAt (store (StopTest a s) a) = QueuedAt (store s a)
       \<and> StartedAt (store (StopTest a s) a) = StartedAt (store s a)
       \<and> FinishedAt (store (StopTest a s) a) = FinishedAt (store s a)
       \<and> Duration now (store (StopTest a s) a) = 0
       \<and> (\<not> list_ex (queues a) es \<longrightarrow>
            Status (store (exec es (StopTest a s)) a) \<noteq> StatusQueued
            \<and> in_flight (exec es (StopTest a s)) a \<le> in_flight s a)"
proof -
  have eq: "StopTest a s = s\<lparr>store := (store s)(a := (store s a)\<lparr>Status := StatusIdle\<rparr>)\<rparr>"
    using assms by (simp add: StopTest_def Let_def)
  have nq: "\<not> queued (StopTest a s) a" by (simp add: eq queued_def)
  have fl: "in_flight (StopTest a s) a = in_flight s a" by (simp add: eq in_flight_def)
  have "\<not> list_ex (queues a) es \<longrightarrow>
          \<not> queued (exec es (StopTest a s)) a
          \<and> in_flight (exec es (StopTest a s)) a \<le> in_flight (StopTest a s) a"
    using exec_not_queued[OF nq, of es] by blast
  then have tr: "\<not> list_ex (queues a) es \<longrightarrow>
          Status (store (exec es (StopTest a s)) a) \<noteq> StatusQueued
          \<and> in_flight (exec es (StopTest a s)) a \<le> in_flight s a"
    by (simp add: fl queued_def)
  have fields: "Status (store (StopTest a s) a) = StatusIdle
       \<and> QueuedAt (store (StopTest a s) a) = QueuedAt (store s a)
       \<and> StartedAt (store (StopTest a s) a) = StartedAt (store s a)
       \<and> FinishedAt (store (StopTest a s) a) = FinishedAt (store s a)
       \<and> Duration now (store (StopTest a s) a) = 0"
    by (simp add: eq Duration_def)
  show ?thesis using eq tr fields by blast
qed

theorem C4_stop_queued_witness:
  "Status (store queued_behind 0) = StatusQueued
   \<and> \<not> list_ex (queues 0) [TaskCompletes 0 False 5, TaskFinishes 0]
   \<and> Status (store (StopTest 0 queued_behind) 0) = StatusIdle
   \<and> QueuedAt (store (StopTest 0 queued_behind) 0) = 3
   \<and> in_flight (exec [TaskCompletes 0 False 5, TaskFinishes 0] (StopTest 0 queued_behind)) 0 = 0"
proof -
  have h: "Status (store queued_behind 0) = StatusQueued"
    by (simp add: queued_behind_def three_jobs_def run_defs)
  have q: "QueuedAt (store queued_behind 0) = 3" "in_flight queued_behind 0 = 0"
    by (simp_all add: queued_behind_def three_jobs_def run_defs)
  show ?thesis
    using h q
      C4_stop_queued[OF h, of 0 "[TaskCompletes 0 False 5, TaskFinishes 0]", THEN conjunct2]
    by (simp del: exec.simps)
qed

section \<open>Completion of a task\<close>

lemma find_map_same:
  "(\<And>t. P (f t) = P t) \<Longrightarrow> find P (map f ts) = map_option f (find P ts)"
  by (induction ts) auto

lemma task_at_set_pc:
  "task_at c p s = Some a \<Longrightarrow> tasks s' = tasks s \<Longrightarrow> task_at c q (set_pc c q s') = Some a"
  by (auto simp: task_at_def set_pc_def find_map_same split: option.splits if_splits
           dest: find_Some_iff[THEN iffD1])

text \<open>
  C5. A task that has begun on job \<open>a\<close> ends in one of two ways. When the command
  returns, the task writes Failed if its context was cancelled or the command returned an
  error and Passed otherwise, stamps \<^verbatim>\<open>FinishedAt\<close> and clears the cancel handle. When
  the log file cannot be created, it writes Failed and stamps \<^verbatim>\<open>FinishedAt\<close> at once
  (and writes nothing else). Either way \<^verbatim>\<open>testFinished\<close> follows: the running count goes down by one and
  \<^verbatim>\<open>tryStartNext\<close> runs.
\<close>

theorem C5_task_completion:
  assumes "task_at c Started s = Some a"
  shows "Status (store (step (TaskCompletes c err now) s) a)
           = (if c \<in> cancelled s \<or> err then StatusFailed else StatusPassed)
       \<and> FinishedAt (store (step (TaskCompletes c err now) s) a) = now
       \<and> cancel (store (step (TaskCompletes c err now) s) a) = None
       \<and> step (TaskFinishes c) (step (TaskCompletes c err now) s)
           = tryStartNext ((retire c (step (TaskCompletes c err now) s))
               \<lparr>rnr := (rnr s)\<lparr>running := running (rnr s) - 1\<rparr>\<rparr>)
       \<and> Status (store (step (TaskCreateFails c now) s) a) = StatusFailed
       \<and> FinishedAt (store (step (TaskCreateFails c now) s) a) = now
       \<and> step (TaskFinishes c) (step (TaskCreateFails c now) s)
           = tryStartNext ((retire c (step (TaskCreateFails c now) s))
               \<lparr>rnr := (rnr s)\<lparr>running := running (rnr s) - 1\<rparr>\<rparr>)"
proof -
  have d: "task_at c Finished (step (TaskCompletes c err now) s) = Some a"
    using assms by (simp add: task_at_set_pc)
  have f: "task_at c Finished (step (TaskCreateFails c now) s) = Some a"
    using assms by (simp add: task_at_set_pc)
  have 1: "store (step (TaskCompletes c err now) s) a
            = (store s a)\<lparr>FinishedAt := now,
                Status := (if c \<in> cancelled s then StatusFailed
                           else if err then StatusFailed else StatusPassed), cancel := None\<rparr>"
    using assms by (simp add: runTest_done_def)
  have 2: "store (step (TaskCreateFails c now) s) a
            = (store s a)\<lparr>Status := StatusFailed, FinishedAt := now\<rparr>"
    using assms by (simp add: runTest_createFailed_def)
  have 3: "rnr (step (TaskCompletes c err now) s) = rnr s"
    "rnr (step (TaskCreateFails c now) s) = rnr s"
    using assms by simp_all
  show ?thesis
    unfolding 1 2 using d f 3 by (simp add: testFinished_def del: step.simps(6,7))
qed

theorem C5_task_completion_witness:
  "task_at 0 Started one_running = Some 0
   \<and> Status (store (step (TaskCompletes 0 False 5) one_running) 0) = StatusPassed
   \<and> Status (store (step (TaskCompletes 0 True 5) one_running) 0) = StatusFailed
   \<and> Status (store (step (TaskCompletes 0 False 5) (step (CallStopTest 0) one_running)) 0)
        = StatusFailed
   \<and> Status (store (step (TaskCreateFails 0 5) one_running) 0) = StatusFailed
   \<and> running (rnr (step (TaskFinishes 0) (step (TaskCompletes 0 False 5) one_running))) = 0"
proof -
  have h: "task_at 0 Started one_running = Some 0"
    by (simp add: one_running_def one_job_def run_defs)
  have h2: "task_at 0 Started (step (CallStopTest 0) one_running) = Some 0"
    by (simp add: one_running_def one_job_def run_defs)
  have c: "cancelled one_running = {}" "cancelled (step (CallStopTest 0) one_running) = {0}"
      "running (rnr one_running) = 1" "tests (rnr one_running) = Some [0]"
    by (simp_all add: one_running_def one_job_def run_defs)
  show ?thesis
    using h C5_task_completion[OF h, of False 5] C5_task_completion[OF h, of True 5]
      C5_task_completion[OF h2, of False 5] c
    by (simp add: one_running_def one_job_def run_defs)
qed

section \<open>The cancel handle\<close>

text \<open>
  Every step but the failure to create the log file keeps the invariant of the cancel
  handle; that one breaks it.
\<close>

lemma step_handle_ok:
  assumes "handle_ok s a" "\<not> create_fails e"
  shows "handle_ok (step e s) a"
proof (cases e)
  case (CallQueueTest b now stamp)
  then show ?thesis using assms(1)
    by (auto simp: handle_ok_def QueueTest_def Let_def)
next
  case (CallStopTest b)
  then show ?thesis using assms(1)
    by (auto simp: handle_ok_def StopTest_def Let_def split: TestStatus.splits option.splits)
next
  case (CallSetMaxParallel n)
  then show ?thesis using assms(1) by (simp add: handle_ok_def SetMaxParallel_def)
next
  case (WriteTestList xs)
  then show ?thesis using assms(1) by (simp add: handle_ok_def SetTestList_def)
next
  case (TaskBegins c now)
  then show ?thesis using assms(1)
    by (auto simp: handle_ok_def runTest_begin_def split: option.splits)
next
  case (TaskCreateFails c now)
  then show ?thesis using assms(2) by simp
next
  case (TaskCompletes c err now)
  then show ?thesis using assms(1)
    by (auto simp: handle_ok_def runTest_done_def split: option.splits)
next
  case (TaskFinishes c)
  then show ?thesis using assms(1)
    by (auto simp: handle_ok_def testFinished_def split: option.splits)
qed

lemma create_failure_breaks:
  "task_at c Started s = Some a \<Longrightarrow> handle_ok s a \<Longrightarrow> Status (store s a) = StatusRunning
     \<Longrightarrow> \<not> handle_ok (step (TaskCreateFails c now) s) a"
  by (auto simp: handle_ok_def runTest_createFailed_def)

text \<open>
  C6. When \<^verbatim>\<open>os.Create\<close> fails, \<^verbatim>\<open>runTest\<close> writes Failed and returns without clearing
  \<^verbatim>\<open>item.cancel\<close>, which the normal path sets to nil: the job is Failed, no task is left,
  and its cancel handle is still set.
\<close>

theorem C6_handle_left_after_create_failure:
  "Status (store create_failed 0) = StatusFailed
   \<and> cancel (store create_failed 0) = Some 0
   \<and> tasks create_failed = []
   \<and> running (rnr create_failed) = 0"
  by (simp add: create_failed_def one_running_def one_job_def run_defs)

section \<open>The runner reads the filtered view\<close>

lemma applyFilter_list:
  "filteredList (applyFilter st m)
     = (if filterText m = [] then m_tests m
        else filter (name_matches st (filterText m)) (m_tests m))"
  by (simp add: applyFilter_def Let_def)

lemma GetQueuedCount_store:
  assumes "\<not> listed s a"
  shows "GetQueuedCount (s\<lparr>store := (store s)(a := it)\<rparr>) = GetQueuedCount s"
proof -
  have "a \<notin> set xs \<Longrightarrow> filter (queued (s\<lparr>store := (store s)(a := it)\<rparr>)) xs = filter (queued s) xs"
    for xs by (induction xs) (auto simp: queued_def)
  then show ?thesis using assms
    by (auto simp: GetQueuedCount_def listed_def split: option.splits)
qed

lemma lower_eval:
  "ToLower ''TestA'' = ''testa''" "ToLower ''TestB'' = ''testb''"
  "ToLower ''TestC'' = ''testc''" "ToLower ''b'' = ''b''"
  by code_simp+

lemma queued_behind_store:
  "Name (Info (store queued_behind 0)) = ''TestA''"
  "Name (Info (store queued_behind (Suc 0))) = ''TestB''"
  "Name (Info (store queued_behind 2)) = ''TestC''"
  "Status (store queued_behind 0) = StatusQueued"
  "Status (store queued_behind (Suc 0)) = StatusRunning"
  "Status (store queued_behind 2) = StatusIdle"
  "in_flight queued_behind 0 = 0"
  by (simp_all add: queued_behind_def three_jobs_def run_defs)

text \<open>
  C7. Once \<^verbatim>\<open>applyFilter\<close> has run with a filter text that is not empty, a job whose name
  does not contain the text is not in the list the runner reads. Whatever its status,
  \<^verbatim>\<open>tryStartNext\<close> spawns no task for it, neither at once nor in any later step for as long
  as the session writes no list that contains it (sorting or reordering the filtered view
  does not), and \<^verbatim>\<open>GetQueuedCount\<close> does not depend on it: the count is the number of
  queued jobs among those that match.
\<close>

theorem C7_filtered_out_not_admitted:
  assumes "filterText m \<noteq> []" "\<not> name_matches (store s) (filterText m) a"
  shows "a \<notin> set (filteredList (applyFilter (store s) m))
     \<and> in_flight (tryStartNext (shared_write (applyFilter (store s) m) s)) a = in_flight s a
     \<and> (\<not> list_ex (relists a) es
          \<longrightarrow> in_flight (exec es (shared_write (applyFilter (store s) m) s)) a \<le> in_flight s a)
     \<and> GetQueuedCount ((shared_write (applyFilter (store s) m) s)\<lparr>store := (store s)(a := it)\<rparr>)
          = GetQueuedCount (shared_write (applyFilter (store s) m) s)
     \<and> GetQueuedCount (shared_write (applyFilter (store s) m) s)
          = int (length (filter (queued s)
                  (filter (name_matches (store s) (filterText m)) (m_tests m))))"
proof -
  let ?s = "shared_write (applyFilter (store s) m) s"
  have nl: "\<not> listed ?s a"
    using assms by (simp add: listed_def shared_write_def SetTestList_def applyFilter_list)
  have fl: "in_flight ?s a = in_flight s a"
    by (simp add: in_flight_def shared_write_def SetTestList_def)
  have st: "store ?s = store s" by (simp add: shared_write_def SetTestList_def)
  have 1: "a \<notin> set (filteredList (applyFilter (store s) m))"
    using assms by (simp add: applyFilter_list)
  have 2: "in_flight (tryStartNext ?s) a = in_flight s a"
    using tryStartNext_in_flight[of ?s a] nl fl by simp
  have 3: "\<not> list_ex (relists a) es \<longrightarrow> in_flight (exec es ?s) a \<le> in_flight s a"
    using exec_not_listed[OF nl, of es] fl by simp
  have 4: "GetQueuedCount (?s\<lparr>store := (store s)(a := it)\<rparr>) = GetQueuedCount ?s"
    using GetQueuedCount_store[OF nl, of it] st by simp
  have 5: "GetQueuedCount ?s
          = int (length (filter (queued s)
                  (filter (name_matches (store s) (filterText m)) (m_tests m))))"
    using assms(1)
    by (simp add: GetQueuedCount_def shared_write_def SetTestList_def applyFilter_list queued_def)
  show ?thesis using 1 2 3 4 5 by blast
qed

theorem C7_filtered_out_not_admitted_witness:
  "filterText filter_b \<noteq> [] \<and> \<not> name_matches (store queued_behind) (filterText filter_b) 0
   \<and> Status (store queued_behind 0) = StatusQueued
   \<and> filteredList (applyFilter (store queued_behind) filter_b) = [1]
   \<and> \<not> list_ex (relists 0) [WriteTestList [1], TaskCompletes 0 False 5, TaskFinishes 0]
   \<and> in_flight (exec [WriteTestList [1], TaskCompletes 0 False 5, TaskFinishes 0]
         (shared_write (applyFilter (store queued_behind) filter_b) queued_behind)) 0 = 0
   \<and> GetQueuedCount (shared_write (applyFilter (store queued_behind) filter_b) queued_behind) = 0"
proof -
  have h1: "filterText filter_b \<noteq> []" by (simp add: filter_b_def)
  have h2: "\<not> name_matches (store queued_behind) (filterText filter_b) 0"
    by (simp add: filter_b_def name_matches_def queued_behind_store lower_eval)
  have m: "m_tests filter_b = [0, 1, 2]"
    by (simp add: filter_b_def NewModel_def three_tests_def eval_nat_numeral)
  have t: "filterText filter_b = ''b''" by (simp add: filter_b_def)
  have l: "filteredList (applyFilter (store queued_behind) filter_b) = [1]"
    by (simp add: applyFilter_list m t name_matches_def queued_behind_store lower_eval)
  show ?thesis
    using h1 h2 l
      C7_filtered_out_not_admitted[OF h1 h2,
        of "[WriteTestList [1], TaskCompletes 0 False 5, TaskFinishes 0]" undefined]
    by (simp add: queued_behind_store m t queued_def name_matches_def lower_eval
             del: exec.simps)
qed

section \<open>Substrings\<close>

lemma HasPrefix_iff: "HasPrefix s sub = (\<exists>q. s = sub @ q)"
  by (induction s sub rule: HasPrefix.induct) auto

lemma Contains_iff: "Contains s sub = (\<exists>p q. s = p @ sub @ q)"
proof (induction s)
  case Nil
  then show ?case by auto
next
  case (Cons c s)
  show ?case
  proof
    assume "Contains (c # s) sub"
    then consider "HasPrefix (c # s) sub" | "Contains s sub" by auto
    then show "\<exists>p q. c # s = p @ sub @ q"
    proof cases
      case 1
      then obtain q where "c # s = sub @ q" by (auto simp: HasPrefix_iff)
      then have "c # s = [] @ sub @ q" by simp
      then show ?thesis by blast
    next
      case 2
      then obtain p q where "s = p @ sub @ q" using Cons.IH by auto
      then have "c # s = (c # p) @ sub @ q" by simp
      then show ?thesis by blast
    qed
  next
    assume "\<exists>p q. c # s = p @ sub @ q"
    then obtain p q where pq: "c # s = p @ sub @ q" by blast
    show "Contains (c # s) sub"
    proof (cases p)
      case Nil
      then have "HasPrefix (c # s) sub" using pq by (auto simp: HasPrefix_iff)
      then show ?thesis by simp
    next
      case (Cons d p')
      then have "s = p' @ sub @ q" using pq by simp
      then have "Contains s sub" using Cons.IH by blast
      then show ?thesis by simp
    qed
  qed
qed

section \<open>Filtering and sorting the list\<close>

lemma index_of_Some:
  "x \<in> set ys \<Longrightarrow> \<exists>i. index_of x ys = Some i \<and> i < length ys \<and> ys ! i = x"
  by (induction ys) auto

lemma mset_ins: "mset (ins lt x r) = add_mset x (mset r)"
  by (induction r) auto

lemma mset_insertionSort: "mset (insertionSort lt xs) = mset xs"
proof -
  have "mset (foldl (\<lambda>r x. ins lt x r) acc xs) = mset acc + mset xs" for acc
    by (induction xs arbitrary: acc) (auto simp: mset_ins)
  then show ?thesis by (simp add: insertionSort_def)
qed

lemma Contains_empty [simp]: "Contains s []"
  by (cases s) simp_all

lemma name_matches_empty: "name_matches st [] a"
  by (simp add: name_matches_def ToLower_def)

lemma applyFilter_filter:
  "filteredList (applyFilter st m) = filter (name_matches st (filterText m)) (m_tests m)"
  by (simp add: applyFilter_list name_matches_empty)

lemma applyFilter_cursor:
  "cursor (applyFilter st m)
     = (if cursor m \<ge> int (length (filteredList (applyFilter st m)))
        then max 0 (int (length (filteredList (applyFilter st m))) - 1)
        else max 0 (cursor m))"
  by (auto simp: applyFilter_def Let_def)

lemma applyFilter_keeps [simp]:
  "sortMode (applyFilter st m) = sortMode m" "filterText (applyFilter st m) = filterText m"
  "m_tests (applyFilter st m) = m_tests m" "recursive (applyFilter st m) = recursive m"
  "shares (applyFilter st m) = (filterText m = [])"
  by (simp_all add: applyFilter_def Let_def)

lemma applySorting_perm:
  assumes perm: "\<forall>lt xs. mset (srt lt xs) = mset xs"
    and c: "0 \<le> cursor m" "filteredList m \<noteq> [] \<longrightarrow> cursor m < int (length (filteredList m))"
  shows "\<exists>m'. applySorting srt st m = Some m'
     \<and> filteredList m' = srt (less_by (sortMode m) st) (filteredList m)
     \<and> m_tests m' = (if shares m then filteredList m' else m_tests m)
     \<and> sortMode m' = sortMode m \<and> filterText m' = filterText m
     \<and> recursive m' = recursive m \<and> shares m' = shares m
     \<and> 0 \<le> cursor m'
     \<and> (filteredList m' \<noteq> [] \<longrightarrow> cursor m' < int (length (filteredList m')))
     \<and> (filteredList m \<noteq> [] \<longrightarrow> index (filteredList m') (cursor m') = index (filteredList m) (cursor m))
     \<and> (filteredList m = [] \<longrightarrow> cursor m' = cursor m)"
proof -
  let ?ys = "srt (less_by (sortMode m) st) (filteredList m)"
  have ms: "mset ?ys = mset (filteredList m)" using perm by blast
  then have len: "length ?ys = length (filteredList m)" and st: "set ?ys = set (filteredList m)"
    by (auto dest: mset_eq_length mset_eq_setD)
  show ?thesis
  proof (cases "filteredList m = []")
    case True
    then have "?ys = []" using len by simp
    then show ?thesis using True c by (simp add: applySorting_def Let_def write_filtered_def)
  next
    case False
    then have lt: "cursor m < int (length (filteredList m))" using c by simp
    let ?cur = "filteredList m ! nat (cursor m)"
    have ix: "index (filteredList m) (cursor m) = Some ?cur" using c lt by (simp add: index_def)
    have "?cur \<in> set ?ys" using st c lt by simp
    then have "\<exists>i. index_of ?cur ?ys = Some i \<and> i < length ?ys \<and> ?ys ! i = ?cur"
      by (rule index_of_Some)
    then obtain i where i: "index_of ?cur ?ys = Some i" "i < length ?ys" "?ys ! i = ?cur"
      by (elim exE conjE)
    let ?m' = "(write_filtered ?ys m)\<lparr>cursor := int i\<rparr>"
    have r: "applySorting srt st m = Some ?m'"
      using False lt ix i by (simp add: applySorting_def Let_def)
    have f: "filteredList ?m' = ?ys" "cursor ?m' = int i"
      "m_tests ?m' = (if shares m then ?ys else m_tests m)"
      "sortMode ?m' = sortMode m" "filterText ?m' = filterText m"
      "recursive ?m' = recursive m" "shares ?m' = shares m"
      by (simp_all add: write_filtered_def)
    have ix': "index ?ys (int i) = Some ?cur" using i by (simp add: index_def)
    show ?thesis
      apply (rule exI[of _ ?m'])
      apply (simp only: f r ix ix')
      using i False len apply simp
      done
  qed
qed

lemma name_matches_iff:
  "name_matches st text a = (\<exists>p q. ToLower (Name (Info (st a))) = p @ ToLower text @ q)"
  by (simp add: name_matches_def Contains_iff)

lemma toggleSortMode_perm:
  assumes "\<forall>lt xs. mset (srt lt xs) = mset xs" "0 \<le> cursor m"
    "cursor m < int (length (filteredList m))"
  shows "\<exists>m'. toggleSortMode srt st m = Some m' \<and> sortMode m' = next_mode (sortMode m)
            \<and> filteredList m' = srt (less_by (next_mode (sortMode m)) st) (filteredList m)
            \<and> mset (filteredList m') = mset (filteredList m)
            \<and> index (filteredList m') (cursor m') = index (filteredList m) (cursor m)
            \<and> index (filteredList m) (cursor m) = Some (filteredList m ! nat (cursor m))"
proof -
  let ?m = "m\<lparr>sortMode := next_mode (sortMode m)\<rparr>"
  have ne: "filteredList m \<noteq> []" using assms(2,3) by auto
  have "\<exists>m'. applySorting srt st ?m = Some m'
     \<and> filteredList m' = srt (less_by (sortMode ?m) st) (filteredList ?m)
     \<and> m_tests m' = (if shares ?m then filteredList m' else m_tests ?m)
     \<and> sortMode m' = sortMode ?m \<and> filterText m' = filterText ?m
     \<and> recursive m' = recursive ?m \<and> shares m' = shares ?m
     \<and> 0 \<le> cursor m'
     \<and> (filteredList m' \<noteq> [] \<longrightarrow> cursor m' < int (length (filteredList m')))
     \<and> (filteredList ?m \<noteq> [] \<longrightarrow> index (filteredList m') (cursor m') = index (filteredList ?m) (cursor ?m))
     \<and> (filteredList ?m = [] \<longrightarrow> cursor m' = cursor ?m)"
    using assms by (intro applySorting_perm) simp_all
  then obtain m' where m': "applySorting srt st ?m = Some m'"
     "filteredList m' = srt (less_by (sortMode ?m) st) (filteredList ?m)"
     "sortMode m' = sortMode ?m"
     "filteredList ?m \<noteq> [] \<longrightarrow> index (filteredList m') (cursor m') = index (filteredList ?m) (cursor ?m)"
    by (elim exE conjE)
  have ms: "mset (filteredList m') = mset (filteredList m)" using m'(2) assms(1) by simp
  have ix: "index (filteredList m) (cursor m) = Some (filteredList m ! nat (cursor m))"
    using assms(2,3) by (simp add: index_def)
  show ?thesis
    apply (rule exI[of _ m'])
    using m' ms ix ne by (simp add: toggleSortMode_def)
qed


text \<open>
  C9. After \<^verbatim>\<open>applyFilter\<close> the filtered list is the full list restricted, in order, to
  the jobs whose lower-cased name contains the lower-cased filter text as a substring (all
  of them when the text is empty). The cursor is clamped: a cursor at or past the end of
  the filtered list goes to its last position (to 0 when the list is empty), a negative
  cursor goes to 0, and any other cursor stays where it is; so it is never negative, and
  it is a valid position whenever the filtered list is not empty. \<^verbatim>\<open>toggleSortMode\<close>, for any \<^verbatim>\<open>sort.Slice\<close>
  that permutes the slice and a valid cursor, goes to the next mode, sorts the filtered
  list in place and leaves the cursor on the job it was on.
\<close>

theorem C9_filter_and_sort_cursor:
  "filteredList (applyFilter st m) = filter (name_matches st (filterText m)) (m_tests m)
   \<and> (filterText m = [] \<longrightarrow> filteredList (applyFilter st m) = m_tests m)
   \<and> name_matches st text a = (\<exists>p q. ToLower (Name (Info (st a))) = p @ ToLower text @ q)
   \<and> 0 \<le> cursor (applyFilter st m)
   \<and> (filteredList (applyFilter st m) \<noteq> [] \<longrightarrow>
        cursor (applyFilter st m) < int (length (filteredList (applyFilter st m))))
   \<and> (filteredList (applyFilter st m) = [] \<longrightarrow> cursor (applyFilter st m) = 0)
   \<and> (0 \<le> cursor m \<and> cursor m < int (length (filteredList (applyFilter st m))) \<longrightarrow>
        cursor (applyFilter st m) = cursor m)
   \<and> cursor (applyFilter st m)
        = (if cursor m \<ge> int (length (filteredList (applyFilter st m)))
           then max 0 (int (length (filteredList (applyFilter st m))) - 1)
           else max 0 (cursor m))
   \<and> (cursor m \<ge> int (length (filteredList (applyFilter st m)))
        \<and> filteredList (applyFilter st m) \<noteq> [] \<longrightarrow>
        cursor (applyFilter st m) = int (length (filteredList (applyFilter st m))) - 1)
   \<and> (cursor m < 0 \<longrightarrow> cursor (applyFilter st m) = 0)
   \<and> ((\<forall>lt xs. mset (srt lt xs) = mset xs) \<and> 0 \<le> cursor m
        \<and> cursor m < int (length (filteredList m)) \<longrightarrow>
        (\<exists>m'. toggleSortMode srt st m = Some m' \<and> sortMode m' = next_mode (sortMode m)
            \<and> filteredList m' = srt (less_by (next_mode (sortMode m)) st) (filteredList m)
            \<and> mset (filteredList m') = mset (filteredList m)
            \<and> index (filteredList m') (cursor m') = index (filteredList m) (cursor m)
            \<and> index (filteredList m) (cursor m) = Some (filteredList m ! nat (cursor m))))"
proof -
  have 1: "filteredList (applyFilter st m) = filter (name_matches st (filterText m)) (m_tests m)"
    by (rule applyFilter_filter)
  have 2: "filterText m = [] \<longrightarrow> filteredList (applyFilter st m) = m_tests m"
    by (simp add: applyFilter_list)
  have 3: "name_matches st text a = (\<exists>p q. ToLower (Name (Info (st a))) = p @ ToLower text @ q)"
    by (rule name_matches_iff)
  have 4: "0 \<le> cursor (applyFilter st m)"
    "filteredList (applyFilter st m) \<noteq> [] \<longrightarrow>
        cursor (applyFilter st m) < int (length (filteredList (applyFilter st m)))"
    "filteredList (applyFilter st m) = [] \<longrightarrow> cursor (applyFilter st m) = 0"
    "0 \<le> cursor m \<and> cursor m < int (length (filteredList (applyFilter st m))) \<longrightarrow>
        cursor (applyFilter st m) = cursor m"
    by (auto simp: applyFilter_cursor)
  have 6: "cursor (applyFilter st m)
        = (if cursor m \<ge> int (length (filteredList (applyFilter st m)))
           then max 0 (int (length (filteredList (applyFilter st m))) - 1)
           else max 0 (cursor m))"
    by (rule applyFilter_cursor)
  have 7: "cursor m \<ge> int (length (filteredList (applyFilter st m)))
        \<and> filteredList (applyFilter st m) \<noteq> [] \<longrightarrow>
        cursor (applyFilter st m) = int (length (filteredList (applyFilter st m))) - 1"
    "cursor m < 0 \<longrightarrow> cursor (applyFilter st m) = 0"
    by (auto simp: applyFilter_cursor)
  have 5: "(\<forall>lt xs. mset (srt lt xs) = mset xs) \<and> 0 \<le> cursor m
        \<and> cursor m < int (length (filteredList m)) \<longrightarrow>
        (\<exists>m'. toggleSortMode srt st m = Some m' \<and> sortMode m' = next_mode (sortMode m)
            \<and> filteredList m' = srt (less_by (next_mode (sortMode m)) st) (filteredList m)
            \<and> mset (filteredList m') = mset (filteredList m)
            \<and> index (filteredList m') (cursor m') = index (filteredList m) (cursor m)
            \<and> index (filteredList m) (cursor m) = Some (filteredList m ! nat (cursor m)))"
    using toggleSortMode_perm[of srt m st] by blast
  show ?thesis
    apply (intro conjI)
    apply (rule 1) apply (rule 2) apply (rule 3) apply (rule 4(1)) apply (rule 4(2))
    apply (rule 4(3)) apply (rule 4(4)) apply (rule 6) apply (rule 7(1)) apply (rule 7(2))
    apply (rule 5)
    done
qed

lemma sel_eval:
  "map_option filteredList (toggleSortMode insertionSort (store queued_behind) sel_model) = Some [1, 0, 2]"
  "map_option cursor (toggleSortMode insertionSort (store queued_behind) sel_model) = Some 1"
  "filteredList (applyFilter (store queued_behind) (filter_b\<lparr>cursor := 5\<rparr>)) = [1]"
  "cursor (applyFilter (store queued_behind) (filter_b\<lparr>cursor := 5\<rparr>)) = 0"
  "cursor sel_model = 0" "filteredList sel_model = [0,1,2]"
  by code_simp+

lemma filter_test_eval:
  "filteredList (applyFilter (store queued_behind) filter_test) = [0, 1, 2]"
  "cursor filter_test = 7"
  by code_simp+

theorem C9_filter_and_sort_cursor_witness:
  "(\<forall>lt xs. mset ((insertionSort :: sorter) lt xs) = mset xs)
   \<and> 0 \<le> cursor sel_model \<and> cursor sel_model < int (length (filteredList sel_model))
   \<and> filteredList sel_model = [0, 1, 2] \<and> cursor sel_model = 0
   \<and> map_option filteredList (toggleSortMode insertionSort (store queued_behind) sel_model)
        = Some [1, 0, 2]
   \<and> map_option cursor (toggleSortMode insertionSort (store queued_behind) sel_model) = Some 1
   \<and> index [1, 0, 2] 1 = index (filteredList sel_model) (cursor sel_model)
   \<and> filteredList (applyFilter (store queued_behind) (filter_b\<lparr>cursor := 5\<rparr>)) = [1]
   \<and> cursor (applyFilter (store queued_behind) (filter_b\<lparr>cursor := 5\<rparr>)) = 0
   \<and> filteredList (applyFilter (store queued_behind) filter_test) = [0, 1, 2]
   \<and> cursor filter_test = 7
   \<and> cursor filter_test
        \<ge> int (length (filteredList (applyFilter (store queued_behind) filter_test)))
   \<and> cursor (applyFilter (store queued_behind) filter_test) = 2"
proof -
  have p: "\<forall>lt xs. mset ((insertionSort :: sorter) lt xs) = mset xs"
    by (simp add: mset_insertionSort)
  have c: "0 \<le> cursor sel_model" "cursor sel_model < int (length (filteredList sel_model))"
    by (simp_all add: sel_eval)
  from C9_filter_and_sort_cursor[of "store queued_behind" sel_model "[]" 0 insertionSort] p c
  obtain m' where m': "toggleSortMode insertionSort (store queued_behind) sel_model = Some m'"
    "index (filteredList m') (cursor m') = index (filteredList sel_model) (cursor sel_model)"
    by blast
  have "filteredList m' = [1, 0, 2]" "cursor m' = 1" using sel_eval(1,2) m'(1) by simp_all
  then have i: "index [1, 0, 2] 1 = index (filteredList sel_model) (cursor sel_model)"
    using m'(2) by simp
  have g: "cursor filter_test
        \<ge> int (length (filteredList (applyFilter (store queued_behind) filter_test)))"
    by (simp add: filter_test_eval)
  have n: "filteredList (applyFilter (store queued_behind) filter_test) \<noteq> []"
    by (simp add: filter_test_eval)
  from C9_filter_and_sort_cursor[of "store queued_behind" filter_test "[]" 0 insertionSort] g n
  have "cursor (applyFilter (store queued_behind) filter_test)
          = int (length (filteredList (applyFilter (store queued_behind) filter_test))) - 1"
    by blast
  then have k: "cursor (applyFilter (store queued_behind) filter_test) = 2"
    by (simp add: filter_test_eval)
  show ?thesis
    apply (intro conjI)
    apply (rule p) apply (rule c(1)) apply (rule c(2)) apply (rule sel_eval(6))
    apply (rule sel_eval(5)) apply (rule sel_eval(1)) apply (rule sel_eval(2)) apply (rule i)
    apply (rule sel_eval(3)) apply (rule sel_eval(4)) apply (rule filter_test_eval(1))
    apply (rule filter_test_eval(2)) apply (rule g) apply (rule k)
    done
qed

section \<open>Rediscovery\<close>

lemma alloc_items_new:
  "map (alloc_items n ts st) [n..<n + length ts] = map new_item ts"
  by (rule nth_equalityI) (simp_all add: alloc_items_def)

lemma alloc_items_old: "a < n \<Longrightarrow> alloc_items n ts st a = st a"
  by (simp add: alloc_items_def)

text \<open>
  C8. When discovery returns an error, \<^verbatim>\<open>rediscoverTests\<close> returns with the items, the
  job list, the filtered view and the cursor as they were (\<^verbatim>\<open>toggleRecursive\<close> has
  flipped the flag, nothing else). When it succeeds, the job list becomes the new items,
  one idle item per discovered test, and the filtered view is the new list filtered by
  the current text and sorted by the current mode, with the cursor inside it.
\<close>

theorem C8_rediscover_all_or_nothing:
  "rediscoverTests srt (Inl err) n (st, m) = Some (st, m)
   \<and> (discover (\<not> recursive m) = Inl err \<longrightarrow>
        toggleRecursive srt discover n (st, m) = Some (st, m\<lparr>recursive := \<not> recursive m\<rparr>))
   \<and> ((\<forall>lt xs. mset (srt lt xs) = mset xs) \<longrightarrow>
        (\<exists>m'. rediscoverTests srt (Inr ts) n (st, m) = Some (alloc_items n ts st, m')
           \<and> map (alloc_items n ts st) [n..<n + length ts] = map new_item ts
           \<and> mset (m_tests m') = mset [n..<n + length ts]
           \<and> filteredList m'
                = srt (less_by (sortMode m) (alloc_items n ts st))
                    (filter (name_matches (alloc_items n ts st) (filterText m)) [n..<n + length ts])
           \<and> sortMode m' = sortMode m \<and> filterText m' = filterText m
           \<and> 0 \<le> cursor m'
           \<and> (filteredList m' \<noteq> [] \<longrightarrow> cursor m' < int (length (filteredList m')))))"
proof -
  have 1: "rediscoverTests srt (Inl err) n (st, m) = Some (st, m)"
    by (simp add: rediscoverTests_def)
  have 2: "discover (\<not> recursive m) = Inl err \<longrightarrow>
        toggleRecursive srt discover n (st, m) = Some (st, m\<lparr>recursive := \<not> recursive m\<rparr>)"
    by (simp add: toggleRecursive_def rediscoverTests_def)
  have 3: "\<exists>m'. rediscoverTests srt (Inr ts) n (st, m) = Some (alloc_items n ts st, m')
           \<and> map (alloc_items n ts st) [n..<n + length ts] = map new_item ts
           \<and> mset (m_tests m') = mset [n..<n + length ts]
           \<and> filteredList m'
                = srt (less_by (sortMode m) (alloc_items n ts st))
                    (filter (name_matches (alloc_items n ts st) (filterText m)) [n..<n + length ts])
           \<and> sortMode m' = sortMode m \<and> filterText m' = filterText m
           \<and> 0 \<le> cursor m'
           \<and> (filteredList m' \<noteq> [] \<longrightarrow> cursor m' < int (length (filteredList m')))"
    if perm: "\<forall>lt xs. mset (srt lt xs) = mset xs"
  proof -
    let ?st = "alloc_items n ts st"
    let ?new = "[n..<n + length ts]"
    let ?m1 = "m\<lparr>m_tests := ?new, shares := False\<rparr>"
    let ?m2 = "applyFilter ?st ?m1"
    have f2: "filteredList ?m2 = filter (name_matches ?st (filterText m)) ?new"
      by (simp add: applyFilter_filter)
    have c2: "0 \<le> cursor ?m2"
      "filteredList ?m2 \<noteq> [] \<longrightarrow> cursor ?m2 < int (length (filteredList ?m2))"
      by (auto simp: applyFilter_cursor)
    have "\<exists>m'. applySorting srt ?st ?m2 = Some m'
     \<and> filteredList m' = srt (less_by (sortMode ?m2) ?st) (filteredList ?m2)
     \<and> m_tests m' = (if shares ?m2 then filteredList m' else m_tests ?m2)
     \<and> sortMode m' = sortMode ?m2 \<and> filterText m' = filterText ?m2
     \<and> recursive m' = recursive ?m2 \<and> shares m' = shares ?m2
     \<and> 0 \<le> cursor m'
     \<and> (filteredList m' \<noteq> [] \<longrightarrow> cursor m' < int (length (filteredList m')))
     \<and> (filteredList ?m2 \<noteq> [] \<longrightarrow> index (filteredList m') (cursor m') = index (filteredList ?m2) (cursor ?m2))
     \<and> (filteredList ?m2 = [] \<longrightarrow> cursor m' = cursor ?m2)"
      using perm c2 by (intro applySorting_perm)
    then obtain m' where m': "applySorting srt ?st ?m2 = Some m'"
      "filteredList m' = srt (less_by (sortMode ?m2) ?st) (filteredList ?m2)"
      "m_tests m' = (if shares ?m2 then filteredList m' else m_tests ?m2)"
      "sortMode m' = sortMode ?m2" "filterText m' = filterText ?m2"
      "0 \<le> cursor m'"
      "filteredList m' \<noteq> [] \<longrightarrow> cursor m' < int (length (filteredList m'))"
      by (elim exE conjE)
    have r: "rediscoverTests srt (Inr ts) n (st, m) = Some (?st, m')"
      using m'(1) by (simp add: rediscoverTests_def Let_def)
    have fl: "filteredList m' = srt (less_by (sortMode m) ?st) (filter (name_matches ?st (filterText m)) ?new)"
      using m'(2) f2 by simp
    have mt: "mset (m_tests m') = mset ?new"
    proof (cases "filterText m = []")
      case True
      then have "filteredList ?m2 = ?new" by (simp add: applyFilter_list)
      then have "mset (filteredList m') = mset ?new" using m'(2) perm by simp
      then show ?thesis using m'(3) True by simp
    next
      case False
      then show ?thesis using m'(3) by simp
    qed
    show ?thesis
      apply (rule exI[of _ m'])
      using r fl mt m'(4-7) alloc_items_new[of n ts st] by simp
  qed
  show ?thesis using 1 2 3 by blast
qed

lemma rediscovered_eval:
  "map_option (\<lambda>r. filteredList (snd r)) rediscovered = Some [4, 3]"
  "map_option (\<lambda>r. m_tests (snd r)) rediscovered = Some [4, 3]"
  "map_option (\<lambda>r. cursor (snd r)) rediscovered = Some 1"
  "map_option (\<lambda>r. map (\<lambda>a. Name (Info (fst r a))) [3, 4]) rediscovered = Some [''TestZ'', ''TestY'']"
  by code_simp+

theorem C8_rediscover_all_or_nothing_witness:
  "(\<forall>lt xs. mset ((insertionSort :: sorter) lt xs) = mset xs)
   \<and> rediscoverTests insertionSort (Inl ''unreadable'') 3 (store three_jobs, NewModel three_tests)
        = Some (store three_jobs, NewModel three_tests)
   \<and> toggleRecursive insertionSort (\<lambda>r. Inl ''unreadable'') 3
          (store three_jobs, NewModel three_tests)
        = Some (store three_jobs, (NewModel three_tests)\<lparr>recursive := False\<rparr>)
   \<and> map_option fst rediscovered
        = Some (alloc_items 3 [test_named ''TestZ'', test_named ''TestY''] (store three_jobs))
   \<and> map_option (\<lambda>r. filteredList (snd r)) rediscovered = Some [4, 3]
   \<and> map_option (\<lambda>r. m_tests (snd r)) rediscovered = Some [4, 3]
   \<and> map_option (\<lambda>r. cursor (snd r)) rediscovered = Some 1"
proof -
  let ?ts = "[test_named ''TestZ'', test_named ''TestY'']"
  have p: "\<forall>lt xs. mset ((insertionSort :: sorter) lt xs) = mset xs"
    by (simp add: mset_insertionSort)
  note t = C8_rediscover_all_or_nothing[of insertionSort "''unreadable''" 3 "store three_jobs"
      "NewModel three_tests" "\<lambda>r. Inl ''unreadable''" ?ts]
  have f: "rediscoverTests insertionSort (Inl ''unreadable'') 3 (store three_jobs, NewModel three_tests)
        = Some (store three_jobs, NewModel three_tests)"
    using t by (rule conjunct1)
  have r: "recursive (NewModel three_tests)" by (simp add: NewModel_def)
  have g: "toggleRecursive insertionSort (\<lambda>r. Inl ''unreadable'') 3
          (store three_jobs, NewModel three_tests)
        = Some (store three_jobs, (NewModel three_tests)\<lparr>recursive := False\<rparr>)"
    using t[THEN conjunct2, THEN conjunct1] r by simp
  from t[THEN conjunct2, THEN conjunct2] p
  obtain m' where "rediscoverTests insertionSort (Inr ?ts) 3 (store three_jobs, NewModel three_tests)
      = Some (alloc_items 3 ?ts (store three_jobs), m')"
    by blast
  then have a: "map_option fst rediscovered = Some (alloc_items 3 ?ts (store three_jobs))"
    by (simp add: rediscovered_def)
  show ?thesis
    apply (intro conjI)
    apply (rule p) apply (rule f) apply (rule g) apply (rule a)
    apply (rule rediscovered_eval(1)) apply (rule rediscovered_eval(2))
    apply (rule rediscovered_eval(3))
    done
qed

section \<open>Searching the output\<close>

text \<open>
  C10. With a search text that is not empty, \<^verbatim>\<open>performSearch\<close> leaves in
  \<^verbatim>\<open>searchMatches\<close> the indices, in increasing order, of the output lines whose
  lower-cased text contains the lower-cased search text, and sets the current match to
  -1. With at least one match, \<^verbatim>\<open>goToNextMatch\<close> moves to the next match and wraps from
  the last to the first, \<^verbatim>\<open>goToPrevMatch\<close> moves to the previous one and wraps from the
  first to the last; both put the scroll position on the match and switch auto-scroll
  off.
\<close>

theorem C10_search_matches_and_cycling:
  "(\<forall>s sub. Contains s sub = (\<exists>p q. s = p @ sub @ q))
   \<and> (searchText m \<noteq> [] \<longrightarrow>
        searchMatches (performSearch m)
          = map int (filter (\<lambda>i. Contains (ToLower (outputLines m ! i)) (ToLower (searchText m)))
                       [0..<length (outputLines m)])
        \<and> currentMatchIdx (performSearch m) = - 1)
   \<and> (searchMatches m \<noteq> [] \<and> - 1 \<le> currentMatchIdx m
        \<and> currentMatchIdx m < int (length (searchMatches m)) \<longrightarrow>
        goToNextMatch m
          = Some (m\<lparr>currentMatchIdx := (currentMatchIdx m + 1) mod int (length (searchMatches m)),
                    outputScroll := searchMatches m
                       ! nat ((currentMatchIdx m + 1) mod int (length (searchMatches m))),
                    autoScroll := False\<rparr>)
        \<and> goToPrevMatch m
          = Some (m\<lparr>currentMatchIdx := (if currentMatchIdx m \<le> 0 then int (length (searchMatches m)) - 1
                                          else currentMatchIdx m - 1),
                    outputScroll := searchMatches m
                       ! nat (if currentMatchIdx m \<le> 0 then int (length (searchMatches m)) - 1
                              else currentMatchIdx m - 1),
                    autoScroll := False\<rparr>))"
proof -
  have 1: "\<forall>s sub. Contains s sub = (\<exists>p q. s = p @ sub @ q)"
    using Contains_iff by blast
  have 2: "searchText m \<noteq> [] \<longrightarrow>
        searchMatches (performSearch m)
          = map int (filter (\<lambda>i. Contains (ToLower (outputLines m ! i)) (ToLower (searchText m)))
                       [0..<length (outputLines m)])
        \<and> currentMatchIdx (performSearch m) = - 1"
    by (simp add: performSearch_def Let_def)
  have 3: "goToNextMatch m
          = Some (m\<lparr>currentMatchIdx := (currentMatchIdx m + 1) mod int (length (searchMatches m)),
                    outputScroll := searchMatches m
                       ! nat ((currentMatchIdx m + 1) mod int (length (searchMatches m))),
                    autoScroll := False\<rparr>)"
    if h: "searchMatches m \<noteq> []" "- 1 \<le> currentMatchIdx m"
       "currentMatchIdx m < int (length (searchMatches m))"
  proof (cases "currentMatchIdx m + 1 \<ge> int (length (searchMatches m))")
    case True
    then have e: "currentMatchIdx m + 1 = int (length (searchMatches m))" using h by simp
    have "(currentMatchIdx m + 1) mod int (length (searchMatches m)) = 0" by (simp add: e)
    then show ?thesis using h True by (simp add: goToNextMatch_def Let_def index_def)
  next
    case False
    then have "(currentMatchIdx m + 1) mod int (length (searchMatches m)) = currentMatchIdx m + 1"
      using h by simp
    then show ?thesis using h False by (simp add: goToNextMatch_def Let_def index_def)
  qed
  have 4: "goToPrevMatch m
          = Some (m\<lparr>currentMatchIdx := (if currentMatchIdx m \<le> 0 then int (length (searchMatches m)) - 1
                                          else currentMatchIdx m - 1),
                    outputScroll := searchMatches m
                       ! nat (if currentMatchIdx m \<le> 0 then int (length (searchMatches m)) - 1
                              else currentMatchIdx m - 1),
                    autoScroll := False\<rparr>)"
    if h: "searchMatches m \<noteq> []" "- 1 \<le> currentMatchIdx m"
       "currentMatchIdx m < int (length (searchMatches m))"
    using h by (auto simp: goToPrevMatch_def Let_def index_def)
  show ?thesis using 1 2 3 4 by blast
qed

lemma foo_next:
  "map_option search_view (goToNextMatch (performSearch search_foo)) = Some (0, 0, False)"
  "map_option search_view (Option.bind (goToNextMatch (performSearch search_foo)) goToNextMatch) = Some (1, 2, False)"
  "map_option search_view (Option.bind (Option.bind (goToNextMatch (performSearch search_foo)) goToNextMatch) goToNextMatch) = Some (0, 0, False)"
  "map_option search_view (Option.bind (goToNextMatch (performSearch search_foo)) goToPrevMatch) = Some (1, 2, False)"
  "map_option search_view (Option.bind (Option.bind (goToNextMatch (performSearch search_foo)) goToPrevMatch) goToPrevMatch) = Some (0, 0, False)"
  by code_simp+

theorem C10_search_matches_and_cycling_witness:
  "searchText search_foo \<noteq> []
   \<and> searchMatches (performSearch search_foo) = [0, 2]
   \<and> - 1 \<le> currentMatchIdx (performSearch search_foo)
   \<and> currentMatchIdx (performSearch search_foo) < int (length (searchMatches (performSearch search_foo)))
   \<and> map_option search_view (goToNextMatch (performSearch search_foo)) = Some (0, 0, False)
   \<and> map_option search_view
        (Option.bind (goToNextMatch (performSearch search_foo)) goToNextMatch) = Some (1, 2, False)
   \<and> map_option search_view
        (Option.bind (Option.bind (goToNextMatch (performSearch search_foo)) goToNextMatch)
           goToNextMatch) = Some (0, 0, False)
   \<and> map_option search_view
        (Option.bind (goToNextMatch (performSearch search_foo)) goToPrevMatch) = Some (1, 2, False)
   \<and> map_option search_view
        (Option.bind (Option.bind (goToNextMatch (performSearch search_foo)) goToPrevMatch)
           goToPrevMatch) = Some (0, 0, False)"
proof -
  have h: "searchText search_foo \<noteq> []" by (simp add: search_foo_def)
  have e: "map int (filter (\<lambda>i. Contains (ToLower (outputLines search_foo ! i))
                                   (ToLower (searchText search_foo)))
                      [0..<length (outputLines search_foo)]) = [0, 2]"
    by code_simp
  have m: "searchMatches (performSearch search_foo) = [0, 2]"
    "currentMatchIdx (performSearch search_foo) = - 1"
    using C10_search_matches_and_cycling[of search_foo] h e by simp_all
  have n: "goToNextMatch (performSearch search_foo)
     = Some ((performSearch search_foo)\<lparr>currentMatchIdx := 0, outputScroll := 0, autoScroll := False\<rparr>)"
    using C10_search_matches_and_cycling[of "performSearch search_foo"] m by simp
  have b: "- 1 \<le> currentMatchIdx (performSearch search_foo)"
    "currentMatchIdx (performSearch search_foo) < int (length (searchMatches (performSearch search_foo)))"
    by (simp_all add: m)
  have v: "map_option search_view (goToNextMatch (performSearch search_foo)) = Some (0, 0, False)"
    by (simp add: n search_view_def)
  show ?thesis
    apply (intro conjI)
    apply (rule h) apply (rule m(1)) apply (rule b(1)) apply (rule b(2)) apply (rule v)
    apply (rule foo_next(2)) apply (rule foo_next(3)) apply (rule foo_next(4))
    apply (rule foo_next(5))
    done
qed

end
